theory Spec2Isabelle
  imports Main "HOL-Library.Sublist"
begin

section \<open>Python strings\<close>

text \<open>
  A Python \<open>str\<close> is a sequence of Unicode code points. It is modelled as a list of
  natural numbers, one per code point, so that \<open>length\<close> and the substring test count
  what Python counts. ASCII literals of the source are written \<open>str ''...''\<close>; a code
  point beyond ASCII is written as its number.
\<close>

type_synonym pystr = "nat list"

definition str :: "string \<Rightarrow> pystr" where
  "str cs = map of_char cs"

text \<open>\<open>w in t\<close> on two strings: \<open>w\<close> occurs in \<open>t\<close> as a contiguous run.\<close>

definition str_in :: "pystr \<Rightarrow> pystr \<Rightarrow> bool" where
  "str_in w t = sublist w t"

text \<open>
  \<open>str.isspace\<close> on one code point: the white space of \<open>str.strip()\<close>,
  \<open>str.split()\<close> and the regular expression class \<open>\s\<close>.
\<close>

definition isspace :: "nat \<Rightarrow> bool" where
  "isspace c \<longleftrightarrow>
     (9 \<le> c \<and> c \<le> 13) \<or> (28 \<le> c \<and> c \<le> 32) \<or> c = 133 \<or> c = 160 \<or> c = 5760 \<or>
     (8192 \<le> c \<and> c \<le> 8202) \<or> c = 8232 \<or> c = 8233 \<or> c = 8239 \<or> c = 8287 \<or> c = 12288"

definition strip :: "pystr \<Rightarrow> pystr" where
  "strip s = rev (dropWhile isspace (rev (dropWhile isspace s)))"

text \<open>
  \<open>s.split()\<close> without arguments: the maximal runs of code points that are not white
  space, in order. The first argument is the run being read.
\<close>

fun split_from :: "pystr \<Rightarrow> pystr \<Rightarrow> pystr list" where
  "split_from w [] = (if w = [] then [] else [w])"
| "split_from w (c # cs) =
     (if isspace c then (if w = [] then split_from [] cs else w # split_from [] cs)
      else split_from (w @ [c]) cs)"

definition split :: "pystr \<Rightarrow> pystr list" where
  "split s = split_from [] s"

text \<open>
  \<open>str.lower()\<close>. Python lowers every cased code point of Unicode. The table here is
  Python's on U+0000..U+00FF, and on the five code points outside that range whose
  lower case contains a code point inside it (U+0130, U+0178, U+1E9E, the Kelvin sign
  U+212A and the Angstrom sign U+212B); every other code point is left as it is. All
  keywords of the program lie in U+0000..U+00FF, so every substring and membership test
  of the program has the outcome it has in Python.
\<close>

definition lower_cp :: "nat \<Rightarrow> pystr" where
  "lower_cp c =
     (if (65 \<le> c \<and> c \<le> 90) \<or> (192 \<le> c \<and> c \<le> 222 \<and> c \<noteq> 215) then [c + 32]
      else if c = 304 then [105, 775]
      else if c = 376 then [255]
      else if c = 7838 then [223]
      else if c = 8490 then [107]
      else if c = 8491 then [229]
      else [c])"

definition lower :: "pystr \<Rightarrow> pystr" where
  "lower s = concat (map lower_cp s)"

section \<open>Audience and tone inference\<close>

definition WORK_WORDS :: "pystr set" where
  "WORK_WORDS = {str ''work'', str ''office'', str ''shift'', str ''deadline'', str ''manager'',
     str ''boss'', str ''colleague'', str ''meeting'', str ''standup'', str ''presentation'',
     str ''interview'', str ''client'', str ''project'', str ''deck'', str ''call'', str ''zoom'',
     str ''teams'', str ''slack''}"

definition SCHOOL_WORDS :: "pystr set" where
  "SCHOOL_WORDS = {str ''school'', str ''class'', str ''lecture'', str ''seminar'',
     str ''professor'', str ''teacher'', str ''tutor'', str ''assignment'', str ''exam'',
     str ''mock'', str ''campus''}"

text \<open>The fourth word is \<open>fianc\<close> followed by U+00E9.\<close>

definition PARTNER_WORDS :: "pystr set" where
  "PARTNER_WORDS = {str ''partner'', str ''girlfriend'', str ''boyfriend'', str ''fianc'' @ [233],
     str ''fiance'', str ''husband'', str ''wife'', str ''date'', str ''anniversary'',
     str ''relationship''}"

definition FRIEND_WORDS :: "pystr set" where
  "FRIEND_WORDS = {str ''friend'', str ''mate'', str ''hangout'', str ''drink'', str ''party'',
     str ''birthday'', str ''pub''}"

definition FAMILY_WORDS :: "pystr set" where
  "FAMILY_WORDS = {str ''mum'', str ''dad'', str ''mother'', str ''father'', str ''parents'',
     str ''sister'', str ''brother'', str ''family'', str ''cousin'', str ''aunt'', str ''uncle''}"

definition SERIOUS_WORDS :: "pystr set" where
  "SERIOUS_WORDS = {str ''upset'', str ''hurt'', str ''argument'', str ''sorry'', str ''apologise'',
     str ''apologize'', str ''forgot'', str ''missed'', str ''trust'', str ''let down''}"

definition MINOR_DELAY_WORDS :: "pystr set" where
  "MINOR_DELAY_WORDS = {str ''late'', str ''delay'', str ''running'', str ''traffic'', str ''train'',
     str ''bus'', str ''tube'', str ''metrolink'', str ''tram'', str ''signal'', str ''wifi'',
     str ''internet'', str ''connection'', str ''battery''}"

text \<open>\<open>any(w in t for w in ws)\<close>.\<close>

definition any_in :: "pystr set \<Rightarrow> pystr \<Rightarrow> bool" where
  "any_in ws t = (\<exists>w\<in>ws. str_in w t)"

definition infer_audience_tone :: "pystr \<Rightarrow> pystr \<times> pystr" where
  "infer_audience_tone s =
     (let t = lower s in
      if any_in ({str ''boss'', str ''manager''} \<union> WORK_WORDS) t then
        ((if str_in (str ''client'') t then str ''Client''
          else if any_in {str ''colleague'', str ''coworker'', str ''teammate''} t
            then str ''Colleague''
          else str ''Boss / Manager''),
         str ''formal'')
      else if any_in (SCHOOL_WORDS \<union> {str ''teacher'', str ''tutor'', str ''professor''}) t then
        (str ''Teacher / Tutor'', str ''formal'')
      else if any_in PARTNER_WORDS t then
        (str ''Partner'',
         (if any_in SERIOUS_WORDS t then str ''sincere''
          else if any_in MINOR_DELAY_WORDS t then str ''light-humour''
          else str ''sincere''))
      else if any_in FRIEND_WORDS t then (str ''Friend'', str ''light-humour'')
      else if any_in FAMILY_WORDS t then (str ''Parent / Family'', str ''sincere'')
      else
        (str ''General'',
         (if any_in MINOR_DELAY_WORDS t then str ''sincere'' else str ''sincere'')))"

section \<open>Age style hint\<close>

definition age_style_hint :: "int \<Rightarrow> pystr" where
  "age_style_hint age =
     (if age < 18 then str ''Keep phrasing simple and clear (under 18).''
      else if age < 30 then str ''Modern, natural phrasing; avoid heavy slang.''
      else if age < 45 then str ''Neutral professional phrasing.''
      else str ''Slightly more formal, straightforward phrasing (age 45+).'')"

section \<open>JSON values and exceptions\<close>

text \<open>
  What \<open>json.loads\<close> returns: \<open>None\<close>, a bool, an int, a float, a str, a list or a
  dict. A float is \<open>m * 2 ^ e\<close>, an infinity or a NaN (the decoder accepts the
  literals \<open>Infinity\<close>, \<open>-Infinity\<close> and \<open>NaN\<close>); the program only observes
  whether a float is zero. A dict is its list of items; \<open>d.get(k)\<close> is \<open>map_of\<close>.
\<close>

datatype pyfloat = Float int int | Inf | NegInf | NaN

datatype json =
    JNull
  | JBool bool
  | JInt int
  | JFloat pyfloat
  | JStr pystr
  | JList "json list"
  | JObj "(pystr \<times> json) list"

text \<open>Truth value of an object, as \<open>or\<close>, \<open>if\<close> and \<open>not\<close> take it.\<close>

fun truthy :: "json \<Rightarrow> bool" where
  "truthy JNull = False"
| "truthy (JBool b) = b"
| "truthy (JInt i) = (i \<noteq> 0)"
| "truthy (JFloat f) = (case f of Float m e \<Rightarrow> m \<noteq> 0 | _ \<Rightarrow> True)"
| "truthy (JStr t) = (t \<noteq> [])"
| "truthy (JList xs) = (xs \<noteq> [])"
| "truthy (JObj kvs) = (kvs \<noteq> [])"

fun type_name :: "json \<Rightarrow> pystr" where
  "type_name JNull = str ''NoneType''"
| "type_name (JBool b) = str ''bool''"
| "type_name (JInt i) = str ''int''"
| "type_name (JFloat f) = str ''float''"
| "type_name (JStr t) = str ''str''"
| "type_name (JList xs) = str ''list''"
| "type_name (JObj kvs) = str ''dict''"

text \<open>
  The exceptions of the program, each with its message. \<open>JSONDecodeError\<close> is what
  \<open>json.loads\<close> raises; \<open>ClientError\<close> stands for whatever the call to the remote
  service, or the reading of its completion, raises. \<open>message\<close> is \<open>str(e)\<close>.
\<close>

datatype error =
    ValueError pystr
  | TypeError pystr
  | AttributeError pystr
  | KeyError pystr
  | JSONDecodeError pystr
  | ClientError pystr

fun message :: "error \<Rightarrow> pystr" where
  "message (ValueError m) = m"
| "message (TypeError m) = m"
| "message (AttributeError m) = m"
| "message (KeyError m) = m"
| "message (JSONDecodeError m) = m"
| "message (ClientError m) = m"

text \<open>The interpreter's error for \<open>x.attr\<close> on an object without that attribute.\<close>

definition no_attribute :: "json \<Rightarrow> string \<Rightarrow> error" where
  "no_attribute x attr =
     AttributeError ([39] @ type_name x @ str '' object has no attribute '' @ [39] @ str attr @ [39])"

section \<open>Sanitising the options\<close>

definition BANNED :: "pystr set" where
  "BANNED = {str ''doctor note'', str ''prescription'', str ''fake note'', str ''police'',
     str ''court'', str ''lawsuit'', str ''insurance fraud'', str ''bank fraud'', str ''illegal'',
     str ''cheat exam'', str ''fake sick'', str ''medical certificate'', str ''tax fraud''}"

text \<open>The fallback text; the code point between \<open>hiccup\<close> and \<open>back\<close> is U+2014.\<close>

definition FALLBACK :: pystr where
  "FALLBACK = str ''Running a few minutes behind after a connection hiccup'' @ [8212] @
     str ''back online shortly.''"

text \<open>\<open>xs[:n]\<close>; a negative \<open>n\<close> counts from the end.\<close>

definition slice_to :: "'a list \<Rightarrow> int \<Rightarrow> 'a list" where
  "slice_to xs n = (if n < 0 then take (length xs - nat (- n)) xs else take (nat n) xs)"

text \<open>
  \<open>(opt.get("text") or "").strip()\<close>. \<open>get\<close> exists on a dict only, \<open>strip\<close> on a
  str only; on anything else the attribute lookup raises.
\<close>

definition opt_text :: "json \<Rightarrow> error + pystr" where
  "opt_text opt =
     (case opt of
        JObj kvs \<Rightarrow>
          (let v = (case map_of kvs (str ''text'') of None \<Rightarrow> JNull | Some v \<Rightarrow> v);
               x = (if truthy v then v else JStr [])
           in case x of JStr t \<Rightarrow> Inr (strip t) | _ \<Rightarrow> Inl (no_attribute x ''strip''))
      | _ \<Rightarrow> Inl (no_attribute opt ''get''))"

text \<open>The dict \<open>{"text": text}\<close>.\<close>

definition text_option :: "pystr \<Rightarrow> json" where
  "text_option t = JObj [(str ''text'', JStr t)]"

text \<open>The loop over \<open>options[:limit]\<close>; the second argument is \<open>out\<close>.\<close>

fun filter_loop :: "json list \<Rightarrow> json list \<Rightarrow> error + json list" where
  "filter_loop [] out = Inr out"
| "filter_loop (opt # opts) out =
     (case opt_text opt of
        Inl e \<Rightarrow> Inl e
      | Inr text \<Rightarrow>
          if text = [] then filter_loop opts out
          else if any_in BANNED (lower text) then filter_loop opts out
          else if length (split text) > 50 then filter_loop opts out
          else filter_loop opts (out @ [text_option text]))"

definition filter_and_normalize :: "json list \<Rightarrow> int \<Rightarrow> error + json list" where
  "filter_and_normalize options limit =
     (case filter_loop (slice_to options limit) [] of
        Inl e \<Rightarrow> Inl e
      | Inr out \<Rightarrow> Inr (if out = [] then [text_option FALLBACK] else out))"

section \<open>Parsing the completion\<close>

text \<open>
  \<open>re.sub(r"^```(?:json)?\s*|\s*```$", "", x, flags=re.IGNORECASE | re.MULTILINE)\<close>.
  With \<open>MULTILINE\<close>, \<open>^\<close> holds at the start and after every line feed, \<open>$\<close> at the end
  and before every line feed. With \<open>IGNORECASE\<close>, the letters of the tag also match
  their capitals, and \<open>s\<close> matches U+017F. Both alternatives need three backticks, so
  no match is empty; the quantifiers are greedy, and giving white space back never
  helps, since a backtick is not white space.
\<close>

definition backticks :: pystr where
  "backticks = [96, 96, 96]"

definition tag_len :: "pystr \<Rightarrow> nat" where
  "tag_len xs =
     (case xs of
        c1 # c2 # c3 # c4 # _ \<Rightarrow>
          if c1 \<in> {106, 74} \<and> c2 \<in> {115, 83, 383} \<and> c3 \<in> {111, 79} \<and> c4 \<in> {110, 78}
          then 4 else 0
      | _ \<Rightarrow> 0)"

text \<open>Length of a match of the first alternative at a position; \<open>bol\<close>: \<open>^\<close> holds there.\<close>

definition fence_open :: "bool \<Rightarrow> pystr \<Rightarrow> nat option" where
  "fence_open bol xs =
     (if bol \<and> prefix backticks xs then
        (let k = 3 + tag_len (drop 3 xs)
         in Some (k + length (takeWhile isspace (drop k xs))))
      else None)"

text \<open>Length of a match of the second alternative at a position.\<close>

definition fence_close :: "pystr \<Rightarrow> nat option" where
  "fence_close xs =
     (let rest = dropWhile isspace xs
      in if prefix backticks rest \<and> (case drop 3 rest of [] \<Rightarrow> True | c # _ \<Rightarrow> c = 10)
         then Some (length (takeWhile isspace xs) + 3) else None)"

definition fence_match :: "bool \<Rightarrow> pystr \<Rightarrow> nat option" where
  "fence_match bol xs = (case fence_open bol xs of Some n \<Rightarrow> Some n | None \<Rightarrow> fence_close xs)"

text \<open>
  The substitution, left to right: \<open>k\<close> code points of the last match are still to be
  dropped; otherwise a match at the position is dropped, or the code point is kept.
\<close>

fun fence_sub :: "nat \<Rightarrow> bool \<Rightarrow> pystr \<Rightarrow> pystr" where
  "fence_sub k bol [] = []"
| "fence_sub k bol (c # cs) =
     (if 0 < k then fence_sub (k - 1) (c = 10) cs
      else (case fence_match bol (c # cs) of
              Some n \<Rightarrow> fence_sub (n - 1) (c = 10) cs
            | None \<Rightarrow> c # fence_sub 0 (c = 10) cs))"

definition strip_fences :: "pystr \<Rightarrow> pystr" where
  "strip_fences content = fence_sub 0 True (strip content)"

text \<open>
  \<open>re.search(r"\{.*\}", content, flags=re.DOTALL)\<close> and \<open>m.group(0)\<close>: from the first
  opening brace to the last closing brace after it.
\<close>

definition brace_search :: "pystr \<Rightarrow> pystr option" where
  "brace_search content =
     (case dropWhile (\<lambda>c. c \<noteq> 123) content of
        [] \<Rightarrow> None
      | b # body \<Rightarrow>
          if 125 \<in> set body then Some (b # rev (dropWhile (\<lambda>c. c \<noteq> 125) (rev body)))
          else None)"

text \<open>
  \<open>json.loads\<close> is the standard library's; it is the first argument, giving the
  decoded value or the exception raised. The next section models it.
\<close>

definition safe_json_parse :: "(pystr \<Rightarrow> error + json) \<Rightarrow> pystr \<Rightarrow> error + json" where
  "safe_json_parse loads content =
     (case loads content of
        Inr v \<Rightarrow> Inr v
      | Inl _ \<Rightarrow>
          (case loads (strip_fences content) of
             Inr v \<Rightarrow> Inr v
           | Inl _ \<Rightarrow>
               (case brace_search content of
                  Some m \<Rightarrow> loads m
                | None \<Rightarrow> Inl (ValueError (str ''Model returned invalid JSON'')))))"

section \<open>The JSON decoder\<close>

text \<open>
  \<open>json.loads(s)\<close> with no further argument is \<open>JSONDecoder().decode(s)\<close> of the
  standard library: white space (\<open>[ \t\n\r]*\<close>) is skipped, one value is scanned, white
  space is skipped again, and anything left is an error (\<open>Extra data\<close>). The scanner
  chooses by the next code point: a quote starts a string, a brace an object, a bracket
  an array; then come the words \<open>null\<close>, \<open>true\<close> and \<open>false\<close>, a number, and the words
  \<open>NaN\<close>, \<open>Infinity\<close> and \<open>-Infinity\<close>; white space is allowed around every value, comma
  and colon. Every failure is an exception, and \<open>safe_json_parse\<close> catches them all
  alike, so the model first cuts the whole text into tokens and then parses the tokens:
  the text is accepted, and with the same value, exactly when the decoder accepts it as
  it reads.

  The conversions of the standard library that the decoder calls, and the limits of the
  interpreter, are the fields of a \<open>decoder\<close>: \<open>parse_int\<close> is \<open>int\<close> on the text of an
  integer literal (it raises on a literal with too many digits), \<open>parse_float\<close> is
  \<open>float\<close> on the text of any other number literal, \<open>depth\<close> is how deep arrays and
  objects may nest before the interpreter raises \<open>RecursionError\<close>, and \<open>failure\<close> is the
  exception raised for a text.
\<close>

datatype token =
    LBrace | RBrace | LBrack | RBrack | Comma | Colon
  | TStr pystr
  | TInt pystr
  | TFloat pystr
  | TConst json

record decoder =
  parse_int :: "pystr \<Rightarrow> json option"
  parse_float :: "pystr \<Rightarrow> json option"
  depth :: nat
  failure :: "pystr \<Rightarrow> error"

text \<open>The white space of the decoder: space, tab, line feed and carriage return.\<close>

definition jws :: "nat \<Rightarrow> bool" where
  "jws c \<longleftrightarrow> c = 32 \<or> c = 9 \<or> c = 10 \<or> c = 13"

definition digit :: "nat \<Rightarrow> bool" where
  "digit c \<longleftrightarrow> 48 \<le> c \<and> c \<le> 57"

text \<open>The four hexadecimal digits after \<open>\u\<close>.\<close>

definition hexval :: "nat \<Rightarrow> nat option" where
  "hexval c =
     (if 48 \<le> c \<and> c \<le> 57 then Some (c - 48)
      else if 97 \<le> c \<and> c \<le> 102 then Some (c - 87)
      else if 65 \<le> c \<and> c \<le> 70 then Some (c - 55)
      else None)"

definition hex4 :: "pystr \<Rightarrow> nat option" where
  "hex4 s =
     (case s of
        a # b # c # d # _ \<Rightarrow>
          (case (hexval a, hexval b, hexval c, hexval d) of
             (Some w, Some x, Some y, Some z) \<Rightarrow> Some (((w * 16 + x) * 16 + y) * 16 + z)
           | _ \<Rightarrow> None)
      | _ \<Rightarrow> None)"

text \<open>The escapes of one letter: \<open>\"\<close>, \<open>\\\<close>, \<open>\/\<close>, \<open>\b\<close>, \<open>\f\<close>, \<open>\n\<close>, \<open>\r\<close>, \<open>\t\<close>.\<close>

definition unescape :: "nat \<Rightarrow> nat option" where
  "unescape e =
     (if e = 34 \<or> e = 92 \<or> e = 47 then Some e
      else if e = 98 then Some 8
      else if e = 102 then Some 12
      else if e = 110 then Some 10
      else if e = 114 then Some 13
      else if e = 116 then Some 9
      else None)"

definition cons_char :: "nat \<Rightarrow> (pystr \<times> pystr) option \<Rightarrow> (pystr \<times> pystr) option" where
  "cons_char x r = (case r of None \<Rightarrow> None | Some (v, rest) \<Rightarrow> Some (x # v, rest))"

text \<open>
  \<open>scanstring\<close>, from the code point after the opening quote: the decoded string and
  the text after the closing quote. A code point below U+0020 is refused (the decoder
  is strict); \<open>\u\<close> with a high surrogate, followed by \<open>\u\<close> with a low surrogate,
  gives the one code point of the pair.
\<close>

fun scanstring :: "pystr \<Rightarrow> (pystr \<times> pystr) option" where
  "scanstring [] = None"
| "scanstring (c # cs) =
     (if c = 34 then Some ([], cs)
      else if c = 92 then
        (case cs of
           [] \<Rightarrow> None
         | e # es \<Rightarrow>
             if e = 117 then
               (case hex4 es of
                  None \<Rightarrow> None
                | Some u \<Rightarrow>
                    if 55296 \<le> u \<and> u \<le> 56319 \<and> prefix [92, 117] (drop 4 es) then
                      (case hex4 (drop 6 es) of
                         None \<Rightarrow> None
                       | Some u2 \<Rightarrow>
                           if 56320 \<le> u2 \<and> u2 \<le> 57343
                           then cons_char (65536 + (u - 55296) * 1024 + (u2 - 56320))
                                  (scanstring (drop 10 es))
                           else cons_char u (scanstring (drop 4 es)))
                    else cons_char u (scanstring (drop 4 es)))
             else (case unescape e of
                     None \<Rightarrow> None
                   | Some x \<Rightarrow> cons_char x (scanstring es)))
      else if c < 32 then None
      else cons_char c (scanstring cs))"

text \<open>
  A number is the longest match of \<open>(-?(?:0|[1-9][0-9]*))(\.[0-9]+)?([eE][-+]?[0-9]+)?\<close>:
  the integer part, then the fraction and the exponent where they are complete. Each
  part returns its text and what follows it.
\<close>

definition int_part :: "pystr \<Rightarrow> (pystr \<times> pystr) option" where
  "int_part s =
     (case s of
        [] \<Rightarrow> None
      | d # ds \<Rightarrow>
          if d = 48 then Some ([48], ds)
          else if digit d then Some (d # takeWhile digit ds, dropWhile digit ds)
          else None)"

definition frac_part :: "pystr \<Rightarrow> pystr \<times> pystr" where
  "frac_part s =
     (case s of
        p # d # ds \<Rightarrow>
          if p = 46 \<and> digit d then (p # d # takeWhile digit ds, dropWhile digit ds) else ([], s)
      | _ \<Rightarrow> ([], s))"

definition exp_digits :: "pystr \<Rightarrow> pystr \<Rightarrow> pystr \<Rightarrow> pystr \<times> pystr" where
  "exp_digits s pre ds =
     (case ds of
        d # ds' \<Rightarrow>
          if digit d then (pre @ d # takeWhile digit ds', dropWhile digit ds') else ([], s)
      | [] \<Rightarrow> ([], s))"

definition exp_part :: "pystr \<Rightarrow> pystr \<times> pystr" where
  "exp_part s =
     (case s of
        e # es \<Rightarrow>
          if e = 101 \<or> e = 69 then
            (case es of
               g # gs \<Rightarrow> if g = 43 \<or> g = 45 then exp_digits s [e, g] gs else exp_digits s [e] es
             | [] \<Rightarrow> ([], s))
          else ([], s)
      | [] \<Rightarrow> ([], s))"

definition split_sign :: "pystr \<Rightarrow> pystr \<times> pystr" where
  "split_sign s = (case s of c # cs \<Rightarrow> if c = 45 then ([c], cs) else ([], s) | [] \<Rightarrow> ([], s))"

text \<open>A number without fraction and exponent is an integer literal, any other a float.\<close>

definition match_number :: "pystr \<Rightarrow> (token \<times> pystr) option" where
  "match_number s =
     (case split_sign s of
        (sign, s1) \<Rightarrow>
          (case int_part s1 of
             None \<Rightarrow> None
           | Some (i, r1) \<Rightarrow>
               (case frac_part r1 of
                  (f, r2) \<Rightarrow>
                    (case exp_part r2 of
                       (e, r3) \<Rightarrow>
                         if f = [] \<and> e = [] then Some (TInt (sign @ i), r3)
                         else Some (TFloat (sign @ i @ f @ e), r3)))))"

definition literal :: "string \<Rightarrow> json \<Rightarrow> pystr \<Rightarrow> (token \<times> pystr) option" where
  "literal w v s = (if prefix (str w) s then Some (TConst v, drop (length w) s) else None)"

definition or_token ::
  "(token \<times> pystr) option \<Rightarrow> (token \<times> pystr) option \<Rightarrow> (token \<times> pystr) option" where
  "or_token a b = (case a of None \<Rightarrow> b | Some r \<Rightarrow> Some r)"

text \<open>The token at the start of a text, and the text after it, in the scanner's order.\<close>

definition next_token :: "pystr \<Rightarrow> (token \<times> pystr) option" where
  "next_token s =
     (case s of
        [] \<Rightarrow> None
      | c # cs \<Rightarrow>
          if c = 34 then (case scanstring cs of None \<Rightarrow> None | Some (v, r) \<Rightarrow> Some (TStr v, r))
          else if c = 123 then Some (LBrace, cs)
          else if c = 125 then Some (RBrace, cs)
          else if c = 91 then Some (LBrack, cs)
          else if c = 93 then Some (RBrack, cs)
          else if c = 44 then Some (Comma, cs)
          else if c = 58 then Some (Colon, cs)
          else
            or_token (literal ''null'' JNull s)
           (or_token (literal ''true'' (JBool True) s)
           (or_token (literal ''false'' (JBool False) s)
           (or_token (match_number s)
           (or_token (literal ''NaN'' (JFloat NaN) s)
           (or_token (literal ''Infinity'' (JFloat Inf) s)
                     (literal ''-Infinity'' (JFloat NegInf) s)))))))"

text \<open>
  The tokens of a text, white space skipped between them. Every token is at least one
  code point long, so the rest is shorter; the test on the lengths only makes that
  visible to the termination proof.
\<close>

fun tokenize :: "pystr \<Rightarrow> token list option" where
  "tokenize [] = Some []"
| "tokenize (c # cs) =
     (if jws c then tokenize cs
      else (case next_token (c # cs) of
              None \<Rightarrow> None
            | Some (t, r) \<Rightarrow>
                if length r \<le> length cs
                then (case tokenize r of None \<Rightarrow> None | Some ts \<Rightarrow> Some (t # ts))
                else None))"

text \<open>\<open>d[k] = v\<close> on the items of a dict: a key seen before keeps its place.\<close>

fun dict_set :: "pystr \<Rightarrow> json \<Rightarrow> (pystr \<times> json) list \<Rightarrow> (pystr \<times> json) list" where
  "dict_set k v [] = [(k, v)]"
| "dict_set k v (p # ps) = (if fst p = k then (k, v) # ps else p # dict_set k v ps)"

text \<open>
  One value from a list of tokens, and the tokens after it; \<open>n\<close> is how many levels of
  arrays and objects may still be opened. \<open>parse_elements\<close> reads the values of an
  array after its bracket, \<open>parse_members\<close> the pairs of an object after its brace.
  The rest after a value is always shorter than the tokens read, which the tests on the
  lengths make visible to the termination proof.
\<close>

function parse_value :: "decoder \<Rightarrow> nat \<Rightarrow> token list \<Rightarrow> (json \<times> token list) option"
  and parse_elements ::
    "decoder \<Rightarrow> nat \<Rightarrow> json list \<Rightarrow> token list \<Rightarrow> (json \<times> token list) option"
  and parse_members ::
    "decoder \<Rightarrow> nat \<Rightarrow> (pystr \<times> json) list \<Rightarrow> token list \<Rightarrow> (json \<times> token list) option"
where
  "parse_value D n [] = None"
| "parse_value D n (t # ts) =
     (case t of
        TStr v \<Rightarrow> Some (JStr v, ts)
      | TInt l \<Rightarrow> (case parse_int D l of None \<Rightarrow> None | Some v \<Rightarrow> Some (v, ts))
      | TFloat l \<Rightarrow> (case parse_float D l of None \<Rightarrow> None | Some v \<Rightarrow> Some (v, ts))
      | TConst v \<Rightarrow> Some (v, ts)
      | LBrack \<Rightarrow>
          if n = 0 then None
          else (case ts of
                  RBrack # r \<Rightarrow> Some (JList [], r)
                | _ \<Rightarrow> parse_elements D (n - 1) [] ts)
      | LBrace \<Rightarrow>
          if n = 0 then None
          else (case ts of
                  RBrace # r \<Rightarrow> Some (JObj [], r)
                | _ \<Rightarrow> parse_members D (n - 1) [] ts)
      | _ \<Rightarrow> None)"
| "parse_elements D n acc ts =
     (case parse_value D n ts of
        None \<Rightarrow> None
      | Some (v, r) \<Rightarrow>
          (case r of
             Comma # r' \<Rightarrow>
               if length r' < length ts then parse_elements D n (acc @ [v]) r' else None
           | RBrack # r' \<Rightarrow> Some (JList (acc @ [v]), r')
           | _ \<Rightarrow> None))"
| "parse_members D n acc ts =
     (case ts of
        TStr k # Colon # ts' \<Rightarrow>
          (case parse_value D n ts' of
             None \<Rightarrow> None
           | Some (v, r) \<Rightarrow>
               (case r of
                  Comma # r' \<Rightarrow>
                    if length r' < length ts then parse_members D n (dict_set k v acc) r'
                    else None
                | RBrace # r' \<Rightarrow> Some (JObj (dict_set k v acc), r')
                | _ \<Rightarrow> None))
      | _ \<Rightarrow> None)"
  by pat_completeness auto
termination
  by (relation "measure (\<lambda>x. case x of
        Inl (D, n, ts) \<Rightarrow> 2 * length ts
      | Inr (Inl (D, n, acc, ts)) \<Rightarrow> 2 * length ts + 1
      | Inr (Inr (D, n, acc, ts)) \<Rightarrow> 2 * length ts + 1)") auto

text \<open>\<open>json.loads\<close>: the value of the text, or the exception.\<close>

definition json_loads :: "decoder \<Rightarrow> pystr \<Rightarrow> error + json" where
  "json_loads D s =
     (case tokenize s of
        None \<Rightarrow> Inl (failure D s)
      | Some ts \<Rightarrow>
          (case parse_value D (depth D) ts of
             Some (v, []) \<Rightarrow> Inr v
           | _ \<Rightarrow> Inl (failure D s)))"

section \<open>The request handler\<close>

record GenerateReq =
  name :: pystr
  age :: int
  scenario :: pystr
  tone :: "pystr option"
  gender :: "pystr option"
  audience :: "pystr option"
  location :: "pystr option"
  role :: "pystr option"
  commute :: "pystr option"
  platform :: "pystr option"
  slang :: bool
  constraints :: "(pystr \<times> json) list"
  variants :: int

record GenerateResp =
  options :: "json list"

record HTTPException =
  status_code :: int
  detail :: pystr

definition SYSTEM_PROMPT :: pystr where
  "SYSTEM_PROMPT =
     str ''You write short, natural excuses in UK English, tailored to the user'' @ [39] @
       str ''s persona.'' @ [10] @
     str ''Rules:'' @ [10] @
     [8226] @ str '' 1'' @ [8211] @ str ''2 sentences, '' @ [8804] @ str '' 45 words total.'' @ [10] @
     [8226] @ str '' No medical/legal claims, impersonation, harassment, or blaming specific people.'' @
       [10] @
     [8226] @ str '' Avoid clich'' @ [233] @ str ''s like '' @ [8216] @ str ''personal reasons'' @ [8217] @
       str ''/'' @ [8216] @ str ''urgent matter'' @ [8217] @ str ''.'' @ [10] @
     [8226] @ str '' Prefer mundane, verifiable causes (prior commitment, transit/app/device hiccup).'' @
       [10] @
     [8226] @ str '' Match formality to inferred audience (boss/client/teacher '' @ [8594] @
       str '' formal; friends/partner '' @ [8594] @ str '' context-appropriate); use contractions.'' @
       [10] @
     [8226] @ str '' Be age-appropriate (avoid teen slang for 30+; keep it simple for under 18) and '' @
       str ''gender-appropriate; no emojis; no follow-up/reschedule lines.''"

text \<open>\<open>x or d\<close> on an optional str: \<open>None\<close> and the empty str are false.\<close>

definition or_else :: "pystr option \<Rightarrow> pystr \<Rightarrow> pystr" where
  "or_else x d = (case x of None \<Rightarrow> d | Some v \<Rightarrow> if v = [] then d else v)"

definition VALID_TONES :: "pystr set" where
  "VALID_TONES = {str ''sincere'', str ''formal'', str ''light-humour''}"

definition audience_final :: "GenerateReq \<Rightarrow> pystr" where
  "audience_final req = or_else (audience req) (fst (infer_audience_tone (scenario req)))"

definition tone_final :: "GenerateReq \<Rightarrow> pystr" where
  "tone_final req =
     (let inferred_tone = snd (infer_audience_tone (scenario req));
          t = lower (or_else (tone req) inferred_tone)
      in if t \<notin> VALID_TONES then inferred_tone else t)"

text \<open>The decimal digits of \<open>f"{n}"\<close> for an int.\<close>

function nat_digits :: "nat \<Rightarrow> pystr" where
  "nat_digits n = (if n < 10 then [48 + n] else nat_digits (n div 10) @ [48 + n mod 10])"
  by pat_completeness auto
termination
  by (relation "measure id") auto

definition int_str :: "int \<Rightarrow> pystr" where
  "int_str i = (if i < 0 then 45 # nat_digits (nat (- i)) else nat_digits (nat i))"

text \<open>\<open>if x: persona_bits.append(f"Label: {x}")\<close>.\<close>

definition persona_bit :: "string \<Rightarrow> pystr option \<Rightarrow> pystr list" where
  "persona_bit label x =
     (case x of None \<Rightarrow> [] | Some v \<Rightarrow> if v = [] then [] else [str label @ v])"

definition persona_bits :: "GenerateReq \<Rightarrow> pystr list" where
  "persona_bits req =
     persona_bit ''Location: '' (location req) @
     persona_bit ''Role: '' (role req) @
     persona_bit ''Gender: '' (gender req) @
     [str ''Age: '' @ int_str (age req)] @
     persona_bit ''Commute: '' (commute req) @
     persona_bit ''Platform: '' (platform req) @
     (if audience_final req \<noteq> [] then [str ''Audience: '' @ audience_final req] else []) @
     [str ''Tone: '' @ tone_final req] @
     (if slang req then [str ''Style: light slang allowed''] else []) @
     [age_style_hint (age req)]"

text \<open>\<open>sep.join(xs)\<close>.\<close>

fun join :: "pystr \<Rightarrow> pystr list \<Rightarrow> pystr" where
  "join sep [] = []"
| "join sep [x] = x"
| "join sep (x # y # ys) = x @ sep @ join sep (y # ys)"

definition persona_str :: "GenerateReq \<Rightarrow> pystr" where
  "persona_str req = join (str '' | '') (persona_bits req)"

definition user_msg :: "GenerateReq \<Rightarrow> pystr" where
  "user_msg req =
     str ''Return STRICT JSON:'' @ [10] @ str ''{ '' @ [34] @ str ''options'' @ [34] @
       str '': [ { '' @ [34] @ str ''text'' @ [34] @ str '': string } ] }'' @ [10] @
     str ''Make it read like the user would speak; subtly weave in relevant persona details '' @
       str ''(place, app, commute) only if they help. Do not add a follow-up line.'' @ [10] @
     str ''Persona: '' @ [34] @ persona_str req @ [34] @ [10] @
     str ''Scenario: '' @ scenario req"

text \<open>
  \<open>"options" in data\<close>: a key of a dict, an element of a list, a substring of a str;
  the other values are not containers.
\<close>

definition has_options :: "json \<Rightarrow> error + bool" where
  "has_options data =
     (case data of
        JObj kvs \<Rightarrow> Inr (str ''options'' \<in> fst ` set kvs)
      | JList xs \<Rightarrow> Inr (JStr (str ''options'') \<in> set xs)
      | JStr t \<Rightarrow> Inr (str_in (str ''options'') t)
      | _ \<Rightarrow> Inl (TypeError (str ''argument of type '' @ [39] @ type_name data @ [39] @
                               str '' is not iterable'')))"

text \<open>\<open>data["options"]\<close>, evaluated only after \<open>"options" in data\<close> held.\<close>

definition get_options :: "json \<Rightarrow> error + json" where
  "get_options data =
     (case data of
        JObj kvs \<Rightarrow>
          (case map_of kvs (str ''options'') of
             Some v \<Rightarrow> Inr v
           | None \<Rightarrow> Inl (KeyError ([39] @ str ''options'' @ [39])))
      | JList xs \<Rightarrow> Inl (TypeError (str ''list indices must be integers or slices, not str''))
      | JStr t \<Rightarrow>
          Inl (TypeError (str ''string indices must be integers, not '' @ [39] @ str ''str'' @ [39]))
      | _ \<Rightarrow> Inl (TypeError ([39] @ type_name data @ [39] @ str '' object is not subscriptable'')))"

text \<open>
  The body of the \<open>try\<close> block. \<open>create\<close> is the call to the remote service together
  with the reading of \<open>completion.choices[0].message.content\<close>: from the system prompt
  and the user message it gives the content (possibly \<open>None\<close>) or the exception raised.
\<close>

definition generate_try ::
  "(pystr \<Rightarrow> error + json) \<Rightarrow> (pystr \<Rightarrow> pystr \<Rightarrow> error + pystr option) \<Rightarrow> GenerateReq
     \<Rightarrow> error + GenerateResp" where
  "generate_try loads create req =
     (case create SYSTEM_PROMPT (user_msg req) of
        Inl e \<Rightarrow> Inl e
      | Inr c \<Rightarrow>
          (case safe_json_parse loads (or_else c (str ''{}'')) of
             Inl e \<Rightarrow> Inl e
           | Inr data \<Rightarrow>
               (case has_options data of
                  Inl e \<Rightarrow> Inl e
                | Inr False \<Rightarrow> Inl (ValueError (str ''JSON missing '' @ [39] @ str ''options'' @ [39] @ str '' list''))
                | Inr True \<Rightarrow>
                    (case get_options data of
                       Inl e \<Rightarrow> Inl e
                     | Inr (JList opts) \<Rightarrow>
                         (case filter_and_normalize opts (variants req) of
                            Inl e \<Rightarrow> Inl e
                          | Inr out \<Rightarrow> Inr \<lparr>options = out\<rparr>)
                     | Inr _ \<Rightarrow>
                         Inl (ValueError (str ''JSON missing '' @ [39] @ str ''options'' @ [39] @ str '' list''))))))"

text \<open>
  The handler: \<open>except Exception as e: raise HTTPException(status_code=500, detail=str(e))\<close>
  around the body.
\<close>

definition generate ::
  "(pystr \<Rightarrow> error + json) \<Rightarrow> (pystr \<Rightarrow> pystr \<Rightarrow> error + pystr option) \<Rightarrow> GenerateReq
     \<Rightarrow> HTTPException + GenerateResp" where
  "generate loads create req =
     (case generate_try loads create req of
        Inl e \<Rightarrow> Inl \<lparr>status_code = 500, detail = message e\<rparr>
      | Inr resp \<Rightarrow> Inr resp)"

section \<open>The entries of an options list, as the specification speaks of them\<close>

text \<open>
  The text an entry carries, before trimming: the str under \<open>"text"\<close> of a dict, the
  empty str when the key is absent or its value is false, and nothing for an entry that
  is not a dict or whose \<open>"text"\<close> is a true value other than a str (on those the
  attribute lookup of the loop raises).
\<close>

definition entry_text :: "json \<Rightarrow> pystr option" where
  "entry_text opt =
     (case opt of
        JObj kvs \<Rightarrow>
          (case map_of kvs (str ''text'') of
             None \<Rightarrow> Some []
           | Some (JStr t) \<Rightarrow> Some t
           | Some v \<Rightarrow> if truthy v then None else Some [])
      | _ \<Rightarrow> None)"

text \<open>A text that passes the filter: not empty, no banned phrase, at most 50 words.\<close>

definition acceptable :: "pystr \<Rightarrow> bool" where
  "acceptable t \<longleftrightarrow> t \<noteq> [] \<and> \<not> any_in BANNED (lower t) \<and> length (split t) \<le> 50"

definition trimmed_text :: "json \<Rightarrow> pystr" where
  "trimmed_text opt = (case entry_text opt of None \<Rightarrow> [] | Some t \<Rightarrow> strip t)"

text \<open>The trimmed texts of the entries that survive the filter, in order.\<close>

definition survivors :: "json list \<Rightarrow> pystr list" where
  "survivors opts = filter acceptable (map trimmed_text opts)"

text \<open>A valid entry with text \<open>t\<close>: its trimmed text passes the filter.\<close>

definition valid_entry :: "json \<Rightarrow> pystr \<Rightarrow> bool" where
  "valid_entry opt t \<longleftrightarrow> entry_text opt = Some t \<and> acceptable (strip t)"

section \<open>Texts that the fence pattern leaves alone\<close>

text \<open>
  The notions the analysis of \<open>safe_json_parse\<close> on fenced JSON uses. \<open>ws\<close>: a text of
  white space only, in the sense of \<open>str.isspace\<close> and \<open>\s\<close>. The text of a token is
  \<open>plain\<close>, without a backtick, or \<open>quoted\<close>, a string literal, which has no line feed
  between its quotes. \<open>fence_free\<close>: a sequence of code points other than the backtick
  and of string literals; in such a text three backticks stand neither at the start of
  a line nor at the end of one.
\<close>

definition ws :: "pystr \<Rightarrow> bool" where
  "ws w \<longleftrightarrow> (\<forall>c\<in>set w. isspace c)"

definition hexdigit :: "nat \<Rightarrow> bool" where
  "hexdigit c \<longleftrightarrow> 48 \<le> c \<and> c \<le> 102"

definition numchar :: "nat \<Rightarrow> bool" where
  "numchar c \<longleftrightarrow> digit c \<or> c = 45 \<or> c = 46 \<or> c = 101 \<or> c = 69 \<or> c = 43"

definition special :: "nat \<Rightarrow> bool" where
  "special c \<longleftrightarrow> c = 34 \<or> c = 123 \<or> c = 125 \<or> c = 91 \<or> c = 93 \<or> c = 44 \<or> c = 58"

definition words :: "string set" where
  "words = {''null'', ''true'', ''false'', ''-Infinity'', ''NaN'', ''Infinity''}"

definition plain :: "pystr \<Rightarrow> bool" where
  "plain w \<longleftrightarrow> (\<forall>c\<in>set w. c \<noteq> 96)"

definition quoted :: "pystr \<Rightarrow> bool" where
  "quoted w \<longleftrightarrow> (\<exists>b. w = 34 # b @ [34] \<and> 10 \<notin> set b)"

inductive fence_free :: "pystr \<Rightarrow> bool" where
  Nil: "fence_free []"
| Plain: "c \<noteq> 96 \<Longrightarrow> fence_free s \<Longrightarrow> fence_free (c # s)"
| Quoted: "10 \<notin> set b \<Longrightarrow> fence_free s \<Longrightarrow> fence_free (34 # b @ 34 # s)"

section \<open>Evaluation of concrete strings\<close>

lemmas str_eval = str_def str_in_def any_in_def lower_def lower_cp_def sublist_Cons_right

section \<open>Properties of the style hint\<close>

text \<open>
  C6: for every integer age, negative ones included, \<open>age_style_hint\<close> gives the
  simple-phrasing directive below 18, the modern-phrasing directive from 18 to 29, the
  neutral directive from 30 to 44 and the more formal directive from 45 on. The four
  bands cover the integers, and the function has a value on each of them.
\<close>

theorem age_style_hint_bands:
  "(a < 18 \<longrightarrow> age_style_hint a = str ''Keep phrasing simple and clear (under 18).'') \<and>
   (18 \<le> a \<and> a < 30 \<longrightarrow> age_style_hint a = str ''Modern, natural phrasing; avoid heavy slang.'') \<and>
   (30 \<le> a \<and> a < 45 \<longrightarrow> age_style_hint a = str ''Neutral professional phrasing.'') \<and>
   (45 \<le> a \<longrightarrow>
      age_style_hint a = str ''Slightly more formal, straightforward phrasing (age 45+).'')"
  by (simp add: age_style_hint_def)

theorem age_style_hint_bands_witness:
  "((-3::int) < 18 \<and> age_style_hint (-3) = str ''Keep phrasing simple and clear (under 18).'') \<and>
   ((18::int) \<le> 18 \<and> (18::int) < 30 \<and>
      age_style_hint 18 = str ''Modern, natural phrasing; avoid heavy slang.'') \<and>
   ((30::int) \<le> 44 \<and> (44::int) < 45 \<and> age_style_hint 44 = str ''Neutral professional phrasing.'') \<and>
   ((45::int) \<le> 45 \<and>
      age_style_hint 45 = str ''Slightly more formal, straightforward phrasing (age 45+).'')"
  using age_style_hint_bands [of "-3"] age_style_hint_bands [of 18]
    age_style_hint_bands [of 44] age_style_hint_bands [of 45]
  by simp

section \<open>Properties of the inference\<close>

text \<open>
  C1, as the specification states it: a scenario whose lower-cased text contains a work
  term and not \<open>client\<close> is classified (Boss / Manager, formal). The scenario
  \<open>Late for lunch with a Colleague\<close> contains the work term \<open>colleague\<close> and not
  \<open>client\<close>, and is classified (Colleague, formal).
\<close>

theorem infer_work_counterexample:
  "any_in ({str ''boss'', str ''manager''} \<union> WORK_WORDS)
     (lower (str ''Late for lunch with a Colleague'')) \<and>
   \<not> str_in (str ''client'') (lower (str ''Late for lunch with a Colleague'')) \<and>
   infer_audience_tone (str ''Late for lunch with a Colleague'') =
     (str ''Colleague'', str ''formal'') \<and>
   infer_audience_tone (str ''Late for lunch with a Colleague'') \<noteq>
     (str ''Boss / Manager'', str ''formal'')"
  by (simp add: infer_audience_tone_def WORK_WORDS_def str_eval)

text \<open>
  C1, amended: a scenario whose lower-cased text contains \<open>boss\<close>, \<open>manager\<close> or
  another work term, and none of \<open>client\<close>, \<open>colleague\<close>, \<open>coworker\<close> and
  \<open>teammate\<close>, is classified (Boss / Manager, formal).
\<close>

theorem infer_work_boss:
  assumes "any_in ({str ''boss'', str ''manager''} \<union> WORK_WORDS) (lower s)"
    and "\<not> str_in (str ''client'') (lower s)"
    and "\<not> any_in {str ''colleague'', str ''coworker'', str ''teammate''} (lower s)"
  shows "infer_audience_tone s = (str ''Boss / Manager'', str ''formal'')"
  using assms by (simp add: infer_audience_tone_def)

theorem infer_work_boss_witness:
  "any_in ({str ''boss'', str ''manager''} \<union> WORK_WORDS) (lower (str ''My Boss wants the deck'')) \<and>
   \<not> str_in (str ''client'') (lower (str ''My Boss wants the deck'')) \<and>
   \<not> any_in {str ''colleague'', str ''coworker'', str ''teammate''}
     (lower (str ''My Boss wants the deck'')) \<and>
   infer_audience_tone (str ''My Boss wants the deck'') = (str ''Boss / Manager'', str ''formal'')"
proof -
  have h1: "any_in ({str ''boss'', str ''manager''} \<union> WORK_WORDS)
      (lower (str ''My Boss wants the deck''))"
    by (simp add: WORK_WORDS_def str_eval)
  have h2: "\<not> str_in (str ''client'') (lower (str ''My Boss wants the deck''))"
    by (simp add: str_eval)
  have h3: "\<not> any_in {str ''colleague'', str ''coworker'', str ''teammate''}
      (lower (str ''My Boss wants the deck''))"
    by (simp add: str_eval)
  from infer_work_boss [OF h1 h2 h3] h1 h2 h3 show ?thesis by blast
qed

text \<open>
  C3, as the specification states it: a scenario whose lower-cased text contains a
  partner term and a serious word is classified (Partner, sincere). The scenario
  \<open>My wife is upset about work\<close> contains \<open>wife\<close> and \<open>upset\<close>, and also the work
  term \<open>work\<close>; the work branch is tested first, and the result is
  (Boss / Manager, formal).
\<close>

theorem infer_partner_counterexample:
  "any_in PARTNER_WORDS (lower (str ''My wife is upset about work'')) \<and>
   any_in SERIOUS_WORDS (lower (str ''My wife is upset about work'')) \<and>
   infer_audience_tone (str ''My wife is upset about work'') =
     (str ''Boss / Manager'', str ''formal'') \<and>
   infer_audience_tone (str ''My wife is upset about work'') \<noteq> (str ''Partner'', str ''sincere'')"
  by (simp add: infer_audience_tone_def WORK_WORDS_def PARTNER_WORDS_def SERIOUS_WORDS_def
      str_eval)

text \<open>
  C3, amended: a scenario whose lower-cased text contains a partner term and a serious
  word, and neither a work term (\<open>boss\<close> and \<open>manager\<close> included) nor a school term,
  is classified (Partner, sincere).
\<close>

theorem infer_partner_serious:
  assumes "any_in PARTNER_WORDS (lower s)"
    and "any_in SERIOUS_WORDS (lower s)"
    and "\<not> any_in ({str ''boss'', str ''manager''} \<union> WORK_WORDS) (lower s)"
    and "\<not> any_in (SCHOOL_WORDS \<union> {str ''teacher'', str ''tutor'', str ''professor''}) (lower s)"
  shows "infer_audience_tone s = (str ''Partner'', str ''sincere'')"
  using assms by (simp add: infer_audience_tone_def)

theorem infer_partner_serious_witness:
  "any_in PARTNER_WORDS (lower (str ''I forgot our Anniversary'')) \<and>
   any_in SERIOUS_WORDS (lower (str ''I forgot our Anniversary'')) \<and>
   \<not> any_in ({str ''boss'', str ''manager''} \<union> WORK_WORDS) (lower (str ''I forgot our Anniversary'')) \<and>
   \<not> any_in (SCHOOL_WORDS \<union> {str ''teacher'', str ''tutor'', str ''professor''})
     (lower (str ''I forgot our Anniversary'')) \<and>
   infer_audience_tone (str ''I forgot our Anniversary'') = (str ''Partner'', str ''sincere'')"
proof -
  have h1: "any_in PARTNER_WORDS (lower (str ''I forgot our Anniversary''))"
    by (simp add: PARTNER_WORDS_def str_eval)
  have h2: "any_in SERIOUS_WORDS (lower (str ''I forgot our Anniversary''))"
    by (simp add: SERIOUS_WORDS_def str_eval)
  have h3: "\<not> any_in ({str ''boss'', str ''manager''} \<union> WORK_WORDS)
      (lower (str ''I forgot our Anniversary''))"
    by (simp add: WORK_WORDS_def str_eval)
  have h4: "\<not> any_in (SCHOOL_WORDS \<union> {str ''teacher'', str ''tutor'', str ''professor''})
      (lower (str ''I forgot our Anniversary''))"
    by (simp add: SCHOOL_WORDS_def str_eval)
  from infer_partner_serious [OF h1 h2 h3 h4] h1 h2 h3 h4 show ?thesis by blast
qed

text \<open>
  C10: for every scenario the inferred audience is one of the eight labels and the
  inferred tone one of \<open>formal\<close>, \<open>sincere\<close> and \<open>light-humour\<close>; so the tone the
  handler resolves is one of the three valid tones, whatever the request supplies.
\<close>

theorem infer_audience_tone_range:
  "fst (infer_audience_tone s) \<in>
     {str ''Boss / Manager'', str ''Client'', str ''Colleague'', str ''Teacher / Tutor'',
      str ''Partner'', str ''Friend'', str ''Parent / Family'', str ''General''} \<and>
   snd (infer_audience_tone s) \<in> {str ''formal'', str ''sincere'', str ''light-humour''} \<and>
   tone_final req \<in> {str ''sincere'', str ''formal'', str ''light-humour''}"
proof -
  have a: "fst (infer_audience_tone s) \<in>
     {str ''Boss / Manager'', str ''Client'', str ''Colleague'', str ''Teacher / Tutor'',
      str ''Partner'', str ''Friend'', str ''Parent / Family'', str ''General''}"
    by (simp add: infer_audience_tone_def Let_def)
  have t: "snd (infer_audience_tone x) \<in> {str ''formal'', str ''sincere'', str ''light-humour''}"
    for x
    by (simp add: infer_audience_tone_def Let_def)
  have f: "tone_final req \<in> {str ''sincere'', str ''formal'', str ''light-humour''}"
    using t [of "scenario req"] by (auto simp add: tone_final_def VALID_TONES_def Let_def)
  from a t f show ?thesis by blast
qed

section \<open>Properties of the sanitiser\<close>

subsection \<open>Trimming\<close>

lemma rstrip_prefix: "prefix (rev (dropWhile P (rev a))) a"
  by (metis rev_rev_ident suffix_to_prefix suffix_dropWhile)

lemma dropWhile_rstrip:
  "dropWhile P (rev (dropWhile P (rev (dropWhile P s)))) = rev (dropWhile P (rev (dropWhile P s)))"
proof -
  define a where "a = dropWhile P s"
  define b where "b = rev (dropWhile P (rev a))"
  have pre: "prefix b a" unfolding b_def by (rule rstrip_prefix)
  have "b = [] \<or> \<not> P (hd b)"
  proof (cases "b = []")
    case False
    with pre have "a \<noteq> []" "hd b = hd a" by (auto simp: prefix_def)
    moreover from \<open>a \<noteq> []\<close> have "\<not> P (hd a)" unfolding a_def by (rule hd_dropWhile)
    ultimately show ?thesis by simp
  qed simp
  then have "dropWhile P b = b" by (simp add: dropWhile_eq_self_iff)
  then show ?thesis unfolding a_def b_def .
qed

lemma strip_strip: "strip (strip s) = strip s"
  by (simp add: strip_def dropWhile_rstrip)

lemma strip_Nil: "strip [] = []"
  by (simp add: strip_def)

subsection \<open>The loop and the surviving entries\<close>

lemma opt_text_Some: "entry_text opt = Some t \<Longrightarrow> opt_text opt = Inr (strip t)"
  by (auto simp add: opt_text_def entry_text_def Let_def strip_def split: json.splits option.splits if_splits)

lemma opt_text_None: "entry_text opt = None \<Longrightarrow> \<exists>e. opt_text opt = Inl e"
  by (auto simp add: opt_text_def entry_text_def Let_def split: json.splits option.splits if_splits)

lemma opt_text_trimmed: "entry_text opt \<noteq> None \<Longrightarrow> opt_text opt = Inr (trimmed_text opt)"
  by (auto simp add: trimmed_text_def opt_text_Some)

lemma filter_loop_typed:
  "filter_loop xs out = Inr r \<Longrightarrow> opt \<in> set xs \<Longrightarrow> entry_text opt \<noteq> None"
proof (induction xs arbitrary: out)
  case Nil
  then show ?case by simp
next
  case (Cons x xs)
  from Cons.prems(1) have x: "entry_text x \<noteq> None"
    using opt_text_None [of x] by (auto split: sum.splits)
  from Cons.prems(1) obtain out' where "filter_loop xs out' = Inr r"
    by (auto split: sum.splits if_splits)
  with Cons.IH Cons.prems(2) x show ?case by auto
qed

lemma filter_loop_survivors:
  "\<forall>opt\<in>set xs. entry_text opt \<noteq> None \<Longrightarrow>
   filter_loop xs out = Inr (out @ map text_option (survivors xs))"
proof (induction xs arbitrary: out)
  case Nil
  then show ?case by (simp add: survivors_def)
next
  case (Cons x xs)
  then have x: "opt_text x = Inr (trimmed_text x)" by (simp add: opt_text_trimmed)
  from Cons have IH: "filter_loop xs out' = Inr (out' @ map text_option (survivors xs))" for out'
    by simp
  show ?case
    by (simp add: x IH survivors_def acceptable_def)
qed

lemma length_slice_to: "0 \<le> n \<Longrightarrow> int (length (slice_to xs n)) \<le> n"
  by (simp add: slice_to_def)

lemma filter_and_normalize_typed:
  "filter_and_normalize opts limit = Inr out \<Longrightarrow>
   \<forall>opt\<in>set (slice_to opts limit). entry_text opt \<noteq> None"
  by (auto simp add: filter_and_normalize_def split: sum.splits dest: filter_loop_typed)

lemma filter_and_normalize_survivors:
  "\<forall>opt\<in>set (slice_to opts limit). entry_text opt \<noteq> None \<Longrightarrow>
   filter_and_normalize opts limit =
     Inr (if survivors (slice_to opts limit) = [] then [text_option FALLBACK]
          else map text_option (survivors (slice_to opts limit)))"
  by (simp add: filter_and_normalize_def filter_loop_survivors)

lemma trimmed_text_strip: "strip (trimmed_text opt) = trimmed_text opt"
  by (simp add: trimmed_text_def strip_strip strip_Nil split: option.splits)

lemma length_survivors: "length (survivors xs) \<le> length xs"
  by (simp add: survivors_def)

lemma survivors_acceptable: "t \<in> set (survivors xs) \<Longrightarrow> acceptable t \<and> strip t = t"
  by (auto simp add: survivors_def trimmed_text_strip)

lemma FALLBACK_acceptable: "acceptable FALLBACK"
  by (simp add: acceptable_def FALLBACK_def BANNED_def split_def isspace_def str_eval)

lemma FALLBACK_strip: "strip FALLBACK = FALLBACK"
  by (simp add: FALLBACK_def strip_def isspace_def str_def)

lemmas opt_eval = slice_to_def entry_text_def trimmed_text_def acceptable_def strip_def
  isspace_def text_option_def BANNED_def split_def str_eval

text \<open>
  C2: for every options list and every limit from 1 to 5, a result of
  \<open>filter_and_normalize\<close> has between 1 and \<open>limit\<close> options, so it is never empty;
  and when no entry of \<open>options[:limit]\<close> survives the filter (each is empty after
  trimming, banned or over 50 words), the result is exactly the fallback option. There
  is a result whenever every entry of \<open>options[:limit]\<close> carries a text; on an entry
  that is not a dict, or whose \<open>"text"\<close> is a true value other than a str, the call
  raises \<open>AttributeError\<close> instead of returning.
\<close>

theorem filter_and_normalize_length:
  assumes "1 \<le> limit" and "limit \<le> 5"
  shows "(\<forall>out. filter_and_normalize opts limit = Inr out \<longrightarrow>
            1 \<le> length out \<and> int (length out) \<le> limit) \<and>
         ((\<forall>opt\<in>set (slice_to opts limit). entry_text opt \<noteq> None) \<longrightarrow>
            (\<exists>out. filter_and_normalize opts limit = Inr out)) \<and>
         ((\<forall>opt\<in>set (slice_to opts limit).
              entry_text opt \<noteq> None \<and> \<not> acceptable (trimmed_text opt)) \<longrightarrow>
            filter_and_normalize opts limit = Inr [text_option FALLBACK])"
proof (intro conjI allI impI)
  fix out
  assume r: "filter_and_normalize opts limit = Inr out"
  let ?s = "survivors (slice_to opts limit)"
  from r have "\<forall>opt\<in>set (slice_to opts limit). entry_text opt \<noteq> None"
    by (rule filter_and_normalize_typed)
  from filter_and_normalize_survivors [OF this] r
  have out: "out = (if ?s = [] then [text_option FALLBACK] else map text_option ?s)"
    by simp
  have "length ?s \<le> length (slice_to opts limit)"
    by (rule length_survivors)
  moreover from assms have "int (length (slice_to opts limit)) \<le> limit"
    by (simp add: length_slice_to)
  ultimately have "int (length ?s) \<le> limit"
    by linarith
  with out assms show "1 \<le> length out" "int (length out) \<le> limit"
    by (auto simp add: Suc_le_eq)
next
  assume "\<forall>opt\<in>set (slice_to opts limit). entry_text opt \<noteq> None"
  from filter_and_normalize_survivors [OF this]
  show "\<exists>out. filter_and_normalize opts limit = Inr out"
    by blast
next
  assume a: "\<forall>opt\<in>set (slice_to opts limit).
    entry_text opt \<noteq> None \<and> \<not> acceptable (trimmed_text opt)"
  then have "survivors (slice_to opts limit) = []"
    by (simp add: survivors_def filter_empty_conv)
  moreover from a have "\<forall>opt\<in>set (slice_to opts limit). entry_text opt \<noteq> None"
    by blast
  ultimately show "filter_and_normalize opts limit = Inr [text_option FALLBACK]"
    by (simp add: filter_and_normalize_survivors)
qed

theorem filter_and_normalize_length_witness:
  "(1::int) \<le> 2 \<and> (2::int) \<le> 5 \<and>
   filter_and_normalize
     [text_option (str ''Call the Police''), JObj [(str ''text'', JStr (str ''  ''))],
      text_option (str ''On my way'')] 2 = Inr [text_option FALLBACK] \<and>
   1 \<le> length [text_option FALLBACK] \<and> int (length [text_option FALLBACK]) \<le> 2"
proof -
  let ?opts = "[text_option (str ''Call the Police''), JObj [(str ''text'', JStr (str ''  ''))],
      text_option (str ''On my way'')]"
  have h: "\<forall>opt\<in>set (slice_to ?opts 2).
      entry_text opt \<noteq> None \<and> \<not> acceptable (trimmed_text opt)"
    by (simp add: opt_eval)
  have b: "(1::int) \<le> 2" "(2::int) \<le> 5" by simp_all
  from filter_and_normalize_length [OF b, of ?opts] h
  have r: "filter_and_normalize ?opts 2 = Inr [text_option FALLBACK]" by blast
  from filter_and_normalize_length [OF b, of ?opts] r
  have "1 \<le> length [text_option FALLBACK] \<and> int (length [text_option FALLBACK]) \<le> 2" by blast
  with b r show ?thesis by blast
qed

text \<open>
  C9: every option of a list that \<open>filter_and_normalize\<close> returns, for any options
  list and any limit, the fallback included, is a dict \<open>{"text": t}\<close> whose \<open>t\<close> is
  not empty, is its own trim, has at most 50 words and contains no banned phrase once
  lower-cased.
\<close>

theorem filter_and_normalize_invariant:
  assumes "filter_and_normalize opts limit = Inr out" and "opt \<in> set out"
  shows "\<exists>t. opt = text_option t \<and> t \<noteq> [] \<and> strip t = t \<and> length (split t) \<le> 50 \<and>
           \<not> any_in BANNED (lower t)"
proof -
  let ?s = "survivors (slice_to opts limit)"
  from assms(1) have "\<forall>opt\<in>set (slice_to opts limit). entry_text opt \<noteq> None"
    by (rule filter_and_normalize_typed)
  from filter_and_normalize_survivors [OF this] assms(1)
  have out: "out = (if ?s = [] then [text_option FALLBACK] else map text_option ?s)"
    by simp
  show ?thesis
  proof (cases "?s = []")
    case True
    with out assms(2) have "opt = text_option FALLBACK" by simp
    with FALLBACK_acceptable FALLBACK_strip show ?thesis
      by (auto simp add: acceptable_def)
  next
    case False
    with out assms(2) obtain t where "t \<in> set ?s" "opt = text_option t" by auto
    with survivors_acceptable [of t] show ?thesis
      by (auto simp add: acceptable_def)
  qed
qed

theorem filter_and_normalize_invariant_witness:
  "filter_and_normalize
     [JObj [(str ''text'', JStr (str '' Bus was late ''))], text_option (str ''Call the Police'')] 2 =
     Inr [text_option (str ''Bus was late'')] \<and>
   str ''Bus was late'' \<noteq> [] \<and> strip (str ''Bus was late'') = str ''Bus was late'' \<and>
   length (split (str ''Bus was late'')) \<le> 50 \<and>
   \<not> any_in BANNED (lower (str ''Bus was late''))"
proof -
  let ?opts = "[JObj [(str ''text'', JStr (str '' Bus was late ''))],
      text_option (str ''Call the Police'')]"
  have r: "filter_and_normalize ?opts 2 = Inr [text_option (str ''Bus was late'')]"
    by (simp add: filter_and_normalize_def opt_text_def Let_def opt_eval)
  have m: "text_option (str ''Bus was late'') \<in> set [text_option (str ''Bus was late'')]"
    by simp
  from filter_and_normalize_invariant [OF r m] r show ?thesis
    by (auto simp add: text_option_def)
qed

text \<open>
  C5, as the specification states it: from a list of valid entries, the sanitiser
  returns options whose texts equal the input texts. The entry with text
  \<open>" ok "\<close> is valid (its trimmed text is not empty, not banned and one word long), and
  the option returned has the text \<open>"ok"\<close>, which is not the input text.
\<close>

theorem filter_and_normalize_text_counterexample:
  "entry_text (JObj [(str ''text'', JStr (str '' ok ''))]) = Some (str '' ok '') \<and>
   acceptable (strip (str '' ok '')) \<and>
   filter_and_normalize [JObj [(str ''text'', JStr (str '' ok ''))]] 1 =
     Inr [text_option (str ''ok'')] \<and>
   str ''ok'' \<noteq> str '' ok ''"
  by (simp add: filter_and_normalize_def opt_text_def Let_def opt_eval)

text \<open>
  C5, amended: for every options list of \<open>N\<close> valid entries (each with a trimmed text
  that is not empty, has no banned substring and at most 50 words) and every limit
  \<open>M\<close> with \<open>1 \<le> M \<le> N\<close>, the sanitiser returns exactly \<open>M\<close> options, whose texts are
  the trimmed texts of the first \<open>M\<close> entries, in the same order.
\<close>

lemma valid_survivors:
  "list_all2 valid_entry xs ts \<Longrightarrow>
   survivors xs = map strip ts \<and> (\<forall>opt\<in>set xs. entry_text opt \<noteq> None)"
  by (induction rule: list_all2_induct)
    (auto simp add: survivors_def trimmed_text_def valid_entry_def)

theorem filter_and_normalize_valid:
  assumes "list_all2 valid_entry opts texts"
    and "1 \<le> m" and "m \<le> int (length opts)"
  shows "filter_and_normalize opts m = Inr (map (\<lambda>t. text_option (strip t)) (take (nat m) texts))"
proof -
  from assms(2) have sl: "slice_to opts m = take (nat m) opts"
    by (simp add: slice_to_def)
  from assms(1) have "list_all2 valid_entry
      (take (nat m) opts) (take (nat m) texts)"
    by (rule list_all2_takeI)
  from valid_survivors [OF this]
  have s: "survivors (take (nat m) opts) = map strip (take (nat m) texts)"
    and t: "\<forall>opt\<in>set (take (nat m) opts). entry_text opt \<noteq> None"
    by simp_all
  from assms have "length texts = length opts" "0 < nat m" "nat m \<le> length opts"
    by (auto dest: list_all2_lengthD)
  then have ne: "take (nat m) texts \<noteq> []"
    by auto
  from t sl have "filter_and_normalize opts m =
      Inr (if survivors (take (nat m) opts) = [] then [text_option FALLBACK]
           else map text_option (survivors (take (nat m) opts)))"
    using filter_and_normalize_survivors [of opts m] by simp
  with s ne show ?thesis
    by (simp add: comp_def)
qed

theorem filter_and_normalize_valid_witness:
  "list_all2 valid_entry
     [JObj [(str ''text'', JStr (str '' On my way ''))], text_option (str ''Bus was late'')]
     [str '' On my way '', str ''Bus was late''] \<and>
   (1::int) \<le> 2 \<and>
   (2::int) \<le> int (length [JObj [(str ''text'', JStr (str '' On my way ''))],
      text_option (str ''Bus was late'')]) \<and>
   filter_and_normalize
     [JObj [(str ''text'', JStr (str '' On my way ''))], text_option (str ''Bus was late'')] 2 =
     Inr [text_option (str ''On my way''), text_option (str ''Bus was late'')]"
proof -
  let ?opts = "[JObj [(str ''text'', JStr (str '' On my way ''))],
      text_option (str ''Bus was late'')]"
  let ?texts = "[str '' On my way '', str ''Bus was late'']"
  have h1: "list_all2 valid_entry ?opts ?texts"
    by (simp add: valid_entry_def opt_eval)
  have h2: "(1::int) \<le> 2" by simp
  have h3: "(2::int) \<le> int (length ?opts)" by simp
  have s: "map (\<lambda>t. text_option (strip t)) (take (nat 2) ?texts) =
      [text_option (str ''On my way''), text_option (str ''Bus was late'')]"
    by (simp add: strip_def isspace_def str_def)
  from filter_and_normalize_valid [OF h1 h2 h3] s h1 h2 h3 show ?thesis
    by simp
qed

section \<open>Properties of the request handler\<close>

lemma sublist_join: "x \<in> set xs \<Longrightarrow> sublist x (join sep xs)"
proof (induction sep xs rule: join.induct)
  case (1 sep)
  then show ?case by simp
next
  case (2 sep y)
  then show ?case by simp
next
  case (3 sep y z zs)
  show ?case
  proof (cases "x = y")
    case True
    then show ?thesis by simp
  next
    case False
    with 3 have "sublist x (join sep (z # zs))" by simp
    then have "sublist x ((y @ sep) @ join sep (z # zs))"
      by (metis sublist_append_leftI sublist_order.order_trans)
    then show ?thesis by simp
  qed
qed

lemma lower_valid: "d \<in> VALID_TONES \<Longrightarrow> lower d = d"
  by (auto simp add: VALID_TONES_def lower_def lower_cp_def str_def)

lemma inferred_tone_valid: "snd (infer_audience_tone s) \<in> VALID_TONES"
  by (simp add: infer_audience_tone_def Let_def VALID_TONES_def)

lemma inferred_audience_nonempty: "fst (infer_audience_tone s) \<noteq> []"
  by (simp add: infer_audience_tone_def Let_def str_def)

lemma tone_bit: "str ''Tone: '' @ tone_final req \<in> set (persona_bits req)"
  by (simp add: persona_bits_def)

lemma audience_bit:
  "audience_final req \<noteq> [] \<Longrightarrow> str ''Audience: '' @ audience_final req \<in> set (persona_bits req)"
  by (simp add: persona_bits_def)

lemmas req_eval = tone_final_def audience_final_def or_else_def VALID_TONES_def
  infer_audience_tone_def WORK_WORDS_def SCHOOL_WORDS_def PARTNER_WORDS_def FRIEND_WORDS_def
  FAMILY_WORDS_def SERIOUS_WORDS_def MINOR_DELAY_WORDS_def Let_def str_eval

text \<open>
  C4, as the specification states it: a tone supplied by the request overrides the
  inferred one when its lower case is a valid tone and is discarded otherwise, and an
  audience supplied by the request always overrides the inferred one. A request that
  supplies the empty str as its audience gets the inferred audience: \<open>or\<close> takes the
  empty str for false.
\<close>

theorem audience_override_counterexample:
  "audience \<lparr>name = str ''Sam'', age = 25, scenario = str ''Late to the pub'', tone = None,
      gender = None, audience = Some [], location = None, role = None, commute = None,
      platform = None, slang = False, constraints = [], variants = 2\<rparr> = Some [] \<and>
   audience_final \<lparr>name = str ''Sam'', age = 25, scenario = str ''Late to the pub'', tone = None,
      gender = None, audience = Some [], location = None, role = None, commute = None,
      platform = None, slang = False, constraints = [], variants = 2\<rparr> = str ''Friend'' \<and>
   str ''Friend'' \<noteq> []"
  by (simp add: req_eval)

text \<open>
  C4, amended: a tone supplied by the request whose lower case is one of \<open>sincere\<close>,
  \<open>formal\<close> and \<open>light-humour\<close> is, lower-cased, the tone of the persona string; any
  other supplied tone is discarded and the inferred tone is used, as it is when no tone
  is supplied; an audience supplied by the request that is not the empty str overrides
  the inferred audience, and an empty one is treated as an absent one: the inferred
  audience is used. The persona string contains \<open>Tone:\<close> and \<open>Audience:\<close> followed
  by the resolved values.
\<close>

theorem tone_audience_resolution:
  "(tone req = Some t \<and> lower t \<in> VALID_TONES \<longrightarrow> tone_final req = lower t) \<and>
   (tone req = Some t \<and> lower t \<notin> VALID_TONES \<longrightarrow>
      tone_final req = snd (infer_audience_tone (scenario req))) \<and>
   (tone req = None \<longrightarrow> tone_final req = snd (infer_audience_tone (scenario req))) \<and>
   (audience req = Some a \<and> a \<noteq> [] \<longrightarrow> audience_final req = a) \<and>
   (audience req = Some [] \<or> audience req = None \<longrightarrow>
      audience_final req = fst (infer_audience_tone (scenario req))) \<and>
   str_in (str ''Tone: '' @ tone_final req) (persona_str req) \<and>
   str_in (str ''Audience: '' @ audience_final req) (persona_str req)"
proof (intro conjI impI)
  assume a: "tone req = Some t \<and> lower t \<in> VALID_TONES"
  then have "t \<noteq> []" by (auto simp add: VALID_TONES_def lower_def str_def)
  with a show "tone_final req = lower t"
    by (simp add: tone_final_def or_else_def Let_def)
next
  assume a: "tone req = Some t \<and> lower t \<notin> VALID_TONES"
  show "tone_final req = snd (infer_audience_tone (scenario req))"
  proof (cases "t = []")
    case True
    with a show ?thesis
      using inferred_tone_valid [of "scenario req"]
      by (simp add: tone_final_def or_else_def Let_def lower_valid)
  next
    case False
    with a show ?thesis
      by (simp add: tone_final_def or_else_def Let_def)
  qed
next
  assume "tone req = None"
  then show "tone_final req = snd (infer_audience_tone (scenario req))"
    using inferred_tone_valid [of "scenario req"]
    by (simp add: tone_final_def or_else_def Let_def lower_valid)
next
  assume "audience req = Some a \<and> a \<noteq> []"
  then show "audience_final req = a"
    by (simp add: audience_final_def or_else_def)
next
  assume "audience req = Some [] \<or> audience req = None"
  then show "audience_final req = fst (infer_audience_tone (scenario req))"
    by (auto simp add: audience_final_def or_else_def)
next
  show "str_in (str ''Tone: '' @ tone_final req) (persona_str req)"
    unfolding str_in_def persona_str_def by (rule sublist_join [OF tone_bit])
next
  have "audience_final req \<noteq> []"
    using inferred_audience_nonempty [of "scenario req"]
    by (auto simp add: audience_final_def or_else_def split: option.splits)
  then show "str_in (str ''Audience: '' @ audience_final req) (persona_str req)"
    unfolding str_in_def persona_str_def by (rule sublist_join [OF audience_bit])
qed

theorem tone_audience_resolution_witness:
  "lower (str ''Formal'') \<in> VALID_TONES \<and>
   snd (infer_audience_tone (str ''Late to the pub'')) = str ''light-humour'' \<and>
   tone_final \<lparr>name = str ''Sam'', age = 25, scenario = str ''Late to the pub'',
      tone = Some (str ''Formal''), gender = None, audience = Some (str ''Landlord''),
      location = None, role = None, commute = None, platform = None, slang = False,
      constraints = [], variants = 2\<rparr> = str ''formal'' \<and>
   audience_final \<lparr>name = str ''Sam'', age = 25, scenario = str ''Late to the pub'',
      tone = Some (str ''Formal''), gender = None, audience = Some (str ''Landlord''),
      location = None, role = None, commute = None, platform = None, slang = False,
      constraints = [], variants = 2\<rparr> = str ''Landlord'' \<and>
   persona_str \<lparr>name = str ''Sam'', age = 25, scenario = str ''Late to the pub'',
      tone = Some (str ''Formal''), gender = None, audience = Some (str ''Landlord''),
      location = None, role = None, commute = None, platform = None, slang = False,
      constraints = [], variants = 2\<rparr> =
     str ''Age: 25 | Audience: Landlord | Tone: formal | Modern, natural phrasing; avoid heavy slang.'' \<and>
   lower (str ''angry'') \<notin> VALID_TONES \<and>
   tone_final \<lparr>name = str ''Sam'', age = 25, scenario = str ''Late to the pub'',
      tone = Some (str ''angry''), gender = None, audience = None,
      location = None, role = None, commute = None, platform = None, slang = False,
      constraints = [], variants = 2\<rparr> = str ''light-humour'' \<and>
   audience_final \<lparr>name = str ''Sam'', age = 25, scenario = str ''Late to the pub'',
      tone = Some (str ''angry''), gender = None, audience = None,
      location = None, role = None, commute = None, platform = None, slang = False,
      constraints = [], variants = 2\<rparr> = str ''Friend'' \<and>
   audience_final \<lparr>name = str ''Sam'', age = 25, scenario = str ''Late to the pub'',
      tone = None, gender = None, audience = Some [],
      location = None, role = None, commute = None, platform = None, slang = False,
      constraints = [], variants = 2\<rparr> = str ''Friend'' \<and>
   tone_final \<lparr>name = str ''Sam'', age = 25, scenario = str ''Late to the pub'',
      tone = None, gender = None, audience = Some [],
      location = None, role = None, commute = None, platform = None, slang = False,
      constraints = [], variants = 2\<rparr> = str ''light-humour''"
proof -
  let ?e = "\<lparr>name = str ''Sam'', age = 25, scenario = str ''Late to the pub'',
      tone = None, gender = None, audience = Some [],
      location = None, role = None, commute = None, platform = None, slang = False,
      constraints = [], variants = 2\<rparr>"
  let ?r = "\<lparr>name = str ''Sam'', age = 25, scenario = str ''Late to the pub'',
      tone = Some (str ''Formal''), gender = None, audience = Some (str ''Landlord''),
      location = None, role = None, commute = None, platform = None, slang = False,
      constraints = [], variants = 2\<rparr>"
  let ?q = "\<lparr>name = str ''Sam'', age = 25, scenario = str ''Late to the pub'',
      tone = Some (str ''angry''), gender = None, audience = None,
      location = None, role = None, commute = None, platform = None, slang = False,
      constraints = [], variants = 2\<rparr>"
  have v: "lower (str ''Formal'') \<in> VALID_TONES" "lower (str ''Formal'') = str ''formal''"
    by (simp_all add: VALID_TONES_def str_eval)
  have w: "lower (str ''angry'') \<notin> VALID_TONES"
    by (simp add: VALID_TONES_def str_eval)
  have i: "snd (infer_audience_tone (str ''Late to the pub'')) = str ''light-humour''"
    by (simp add: req_eval)
  have l: "str ''Landlord'' \<noteq> []" by (simp add: str_def)
  have p: "persona_str ?r = join (str '' | '')
      [str ''Age: '' @ int_str 25, str ''Audience: '' @ audience_final ?r,
       str ''Tone: '' @ tone_final ?r, age_style_hint 25]"
    using l by (simp add: persona_str_def persona_bits_def persona_bit_def audience_final_def
        or_else_def)
  have d: "int_str 25 = str ''25''"
    by (simp add: int_str_def str_def)
  from tone_audience_resolution [of ?r "str ''Formal''" "str ''Landlord''"] v l
  have r: "tone_final ?r = str ''formal''" "audience_final ?r = str ''Landlord''"
    by simp_all
  have j: "fst (infer_audience_tone (str ''Late to the pub'')) = str ''Friend''"
    by (simp add: req_eval)
  from tone_audience_resolution [of ?q "str ''angry''"] w i j
  have q: "tone_final ?q = str ''light-humour''" "audience_final ?q = str ''Friend''"
    by simp_all
  from tone_audience_resolution [of ?e] i j
  have e: "audience_final ?e = str ''Friend''" "tone_final ?e = str ''light-humour''"
    by simp_all
  have s: "persona_str ?r =
      str ''Age: 25 | Audience: Landlord | Tone: formal | Modern, natural phrasing; avoid heavy slang.''"
    unfolding p r d by (simp add: age_style_hint_def str_def)
  from v w i r q e s show ?thesis by blast
qed

text \<open>
  C8: a failure inside the \<open>try\<close> block is reported by the handler as one
  \<open>HTTPException\<close> with status 500 whose detail is the message of the failure: a
  failure of the remote call, a completion that \<open>safe_json_parse\<close> cannot parse, a
  parsed dict without \<open>"options"\<close> or with an \<open>"options"\<close> that is not a list, a
  failure of the sanitiser, and in general whatever the block raises. A response is
  returned only when every stage succeeded, and then it carries the whole list that
  \<open>filter_and_normalize\<close> returned.
\<close>

theorem generate_failures:
  "(create SYSTEM_PROMPT (user_msg req) = Inl e \<longrightarrow>
      generate loads create req = Inl \<lparr>status_code = 500, detail = message e\<rparr>) \<and>
   (create SYSTEM_PROMPT (user_msg req) = Inr c \<and>
    safe_json_parse loads (or_else c (str ''{}'')) = Inl e \<longrightarrow>
      generate loads create req = Inl \<lparr>status_code = 500, detail = message e\<rparr>) \<and>
   (create SYSTEM_PROMPT (user_msg req) = Inr c \<and>
    safe_json_parse loads (or_else c (str ''{}'')) = Inr (JObj kvs) \<and>
    (case map_of kvs (str ''options'') of None \<Rightarrow> True | Some (JList opts) \<Rightarrow> False
     | Some v \<Rightarrow> True) \<longrightarrow>
      generate loads create req = Inl \<lparr>status_code = 500, detail = str ''JSON missing '' @ [39] @ str ''options'' @ [39] @ str '' list''\<rparr>) \<and>
   (create SYSTEM_PROMPT (user_msg req) = Inr c \<and>
    safe_json_parse loads (or_else c (str ''{}'')) = Inr (JObj kvs) \<and>
    map_of kvs (str ''options'') = Some (JList opts) \<and>
    filter_and_normalize opts (variants req) = Inl e \<longrightarrow>
      generate loads create req = Inl \<lparr>status_code = 500, detail = message e\<rparr>) \<and>
   (generate_try loads create req = Inl e \<longrightarrow>
      generate loads create req = Inl \<lparr>status_code = 500, detail = message e\<rparr>) \<and>
   (generate loads create req = Inr resp \<longrightarrow>
      (\<exists>c data opts. create SYSTEM_PROMPT (user_msg req) = Inr c \<and>
         safe_json_parse loads (or_else c (str ''{}'')) = Inr data \<and>
         get_options data = Inr (JList opts) \<and>
         filter_and_normalize opts (variants req) = Inr (options resp)))"
proof (intro conjI impI)
  assume "create SYSTEM_PROMPT (user_msg req) = Inl e"
  then show "generate loads create req = Inl \<lparr>status_code = 500, detail = message e\<rparr>"
    by (simp add: generate_def generate_try_def)
next
  assume "create SYSTEM_PROMPT (user_msg req) = Inr c \<and>
    safe_json_parse loads (or_else c (str ''{}'')) = Inl e"
  then show "generate loads create req = Inl \<lparr>status_code = 500, detail = message e\<rparr>"
    by (simp add: generate_def generate_try_def)
next
  assume a: "create SYSTEM_PROMPT (user_msg req) = Inr c \<and>
    safe_json_parse loads (or_else c (str ''{}'')) = Inr (JObj kvs) \<and>
    (case map_of kvs (str ''options'') of None \<Rightarrow> True | Some (JList opts) \<Rightarrow> False
     | Some v \<Rightarrow> True)"
  show "generate loads create req = Inl \<lparr>status_code = 500, detail = str ''JSON missing '' @ [39] @ str ''options'' @ [39] @ str '' list''\<rparr>"
  proof (cases "map_of kvs (str ''options'')")
    case None
    then have "str ''options'' \<notin> fst ` set kvs" by (simp add: map_of_eq_None_iff)
    with a show ?thesis
      by (simp add: generate_def generate_try_def has_options_def)
  next
    case (Some v)
    then have "str ''options'' \<in> fst ` set kvs"
      by (metis map_of_eq_None_iff option.distinct(1))
    with a Some show ?thesis
      by (auto simp add: generate_def generate_try_def has_options_def get_options_def
          split: json.splits)
  qed
next
  assume a: "create SYSTEM_PROMPT (user_msg req) = Inr c \<and>
    safe_json_parse loads (or_else c (str ''{}'')) = Inr (JObj kvs) \<and>
    map_of kvs (str ''options'') = Some (JList opts) \<and>
    filter_and_normalize opts (variants req) = Inl e"
  then have "str ''options'' \<in> fst ` set kvs"
    by (metis map_of_eq_None_iff option.distinct(1))
  with a show "generate loads create req = Inl \<lparr>status_code = 500, detail = message e\<rparr>"
    by (simp add: generate_def generate_try_def has_options_def get_options_def)
next
  assume "generate_try loads create req = Inl e"
  then show "generate loads create req = Inl \<lparr>status_code = 500, detail = message e\<rparr>"
    by (simp add: generate_def)
next
  assume "generate loads create req = Inr resp"
  then have "generate_try loads create req = Inr resp"
    by (simp add: generate_def split: sum.splits)
  then show "\<exists>c data opts. create SYSTEM_PROMPT (user_msg req) = Inr c \<and>
         safe_json_parse loads (or_else c (str ''{}'')) = Inr data \<and>
         get_options data = Inr (JList opts) \<and>
         filter_and_normalize opts (variants req) = Inr (options resp)"
    by (auto simp add: generate_try_def split: sum.splits bool.splits json.splits)
qed

theorem generate_failures_witness:
  "generate (\<lambda>x. Inl (JSONDecodeError (str ''Expecting value'')))
     (\<lambda>sys msg. Inl (ClientError (str ''Connection error.'')))
     \<lparr>name = str ''Sam'', age = 25, scenario = str ''Late to the pub'', tone = None,
      gender = None, audience = None, location = None, role = None, commute = None,
      platform = None, slang = False, constraints = [], variants = 2\<rparr> =
     Inl \<lparr>status_code = 500, detail = str ''Connection error.''\<rparr> \<and>
   generate (\<lambda>x. Inl (JSONDecodeError (str ''Expecting value'')))
     (\<lambda>sys msg. Inr (Some (str ''No excuse today'')))
     \<lparr>name = str ''Sam'', age = 25, scenario = str ''Late to the pub'', tone = None,
      gender = None, audience = None, location = None, role = None, commute = None,
      platform = None, slang = False, constraints = [], variants = 2\<rparr> =
     Inl \<lparr>status_code = 500, detail = str ''Model returned invalid JSON''\<rparr> \<and>
   generate (\<lambda>x. Inr (JObj [])) (\<lambda>sys msg. Inr None)
     \<lparr>name = str ''Sam'', age = 25, scenario = str ''Late to the pub'', tone = None,
      gender = None, audience = None, location = None, role = None, commute = None,
      platform = None, slang = False, constraints = [], variants = 2\<rparr> =
     Inl \<lparr>status_code = 500,
          detail = str ''JSON missing '' @ [39] @ str ''options'' @ [39] @ str '' list''\<rparr> \<and>
   generate (\<lambda>x. Inr (JObj [(str ''options'', JList [JInt 5])])) (\<lambda>sys msg. Inr None)
     \<lparr>name = str ''Sam'', age = 25, scenario = str ''Late to the pub'', tone = None,
      gender = None, audience = None, location = None, role = None, commute = None,
      platform = None, slang = False, constraints = [], variants = 2\<rparr> =
     Inl \<lparr>status_code = 500, detail = message (no_attribute (JInt 5) ''get'')\<rparr>"
proof -
  let ?req = "\<lparr>name = str ''Sam'', age = 25, scenario = str ''Late to the pub'', tone = None,
      gender = None, audience = None, location = None, role = None, commute = None,
      platform = None, slang = False, constraints = [], variants = 2\<rparr>"
  let ?bad = "\<lambda>x::pystr. (Inl (JSONDecodeError (str ''Expecting value'')) :: error + json)"
  let ?down = "\<lambda>(sys::pystr) (msg::pystr).
    (Inl (ClientError (str ''Connection error.'')) :: error + pystr option)"
  let ?text = "\<lambda>(sys::pystr) (msg::pystr). (Inr (Some (str ''No excuse today'')) :: error + pystr option)"
  let ?none = "\<lambda>(sys::pystr) (msg::pystr). (Inr None :: error + pystr option)"
  let ?empty = "\<lambda>x::pystr. (Inr (JObj []) :: error + json)"
  let ?five = "\<lambda>x::pystr. (Inr (JObj [(str ''options'', JList [JInt 5])]) :: error + json)"
  have a: "generate ?bad ?down ?req = Inl \<lparr>status_code = 500, detail = str ''Connection error.''\<rparr>"
    using generate_failures [where create = ?down and req = ?req and loads = ?bad
        and e = "ClientError (str ''Connection error.'')"]
    by simp
  have p: "safe_json_parse ?bad (or_else (Some (str ''No excuse today'')) (str ''{}'')) =
      Inl (ValueError (str ''Model returned invalid JSON''))"
    by (simp add: safe_json_parse_def brace_search_def or_else_def str_def)
  have b: "generate ?bad ?text ?req =
      Inl \<lparr>status_code = 500, detail = str ''Model returned invalid JSON''\<rparr>"
    using generate_failures [where create = ?text and req = ?req and loads = ?bad
        and c = "Some (str ''No excuse today'')" and e = "ValueError (str ''Model returned invalid JSON'')"] p
    by simp
  have q: "safe_json_parse ?empty (or_else None (str ''{}'')) = Inr (JObj [])"
    by (simp add: safe_json_parse_def)
  have c: "generate ?empty ?none ?req =
      Inl \<lparr>status_code = 500,
           detail = str ''JSON missing '' @ [39] @ str ''options'' @ [39] @ str '' list''\<rparr>"
    using generate_failures [where create = ?none and req = ?req and loads = ?empty
        and c = None and kvs = "[]"] q
    by simp
  have r: "safe_json_parse ?five (or_else None (str ''{}'')) =
      Inr (JObj [(str ''options'', JList [JInt 5])])"
    by (simp add: safe_json_parse_def)
  have f: "filter_and_normalize [JInt 5] 2 = Inl (no_attribute (JInt 5) ''get'')"
    by (simp add: filter_and_normalize_def slice_to_def opt_text_def)
  have d: "generate ?five ?none ?req =
      Inl \<lparr>status_code = 500, detail = message (no_attribute (JInt 5) ''get'')\<rparr>"
    using generate_failures [where create = ?none and req = ?req and loads = ?five
        and c = None and e = "no_attribute (JInt 5) ''get''"
        and kvs = "[(str ''options'', JList [JInt 5])]" and opts = "[JInt 5]"] r f
    by simp
  from a b c d show ?thesis by blast
qed

section \<open>Properties of the parser\<close>

subsection \<open>String literals\<close>

lemma cons_char_Some:
  "cons_char x q = Some (v, r) \<longleftrightarrow> (\<exists>v'. q = Some (v', r) \<and> v = x # v')"
  by (auto simp add: cons_char_def split: option.splits)

lemma hexval_Some: "hexval c = Some x \<Longrightarrow> 48 \<le> c \<and> c \<le> 102"
  by (auto simp add: hexval_def split: if_splits)

lemma hex4_Some:
  "hex4 s = Some u \<Longrightarrow>
   \<exists>a b c d r. s = a # b # c # d # r \<and> hexdigit a \<and> hexdigit b \<and> hexdigit c \<and> hexdigit d"
  by (auto simp add: hex4_def hexdigit_def split: list.splits option.splits dest!: hexval_Some)

lemma unescape_Some: "unescape e = Some x \<Longrightarrow> 34 \<le> e"
  by (auto simp add: unescape_def split: if_splits)

lemma scanstring_text:
  "scanstring cs = Some (v, r) \<Longrightarrow> \<exists>b. cs = b @ 34 # r \<and> (\<forall>c\<in>set b. 32 \<le> c)"
proof (induction "length cs" arbitrary: cs v r rule: less_induct)
  case less
  show ?case
  proof (cases cs)
    case Nil
    with less.prems show ?thesis by simp
  next
    case (Cons c cs')
    note cs = Cons
    have IH: "\<And>ds v r. length ds < length cs \<Longrightarrow> scanstring ds = Some (v, r) \<Longrightarrow>
        \<exists>b. ds = b @ 34 # r \<and> (\<forall>c\<in>set b. 32 \<le> c)"
      using less.hyps by blast
    consider (quote) "c = 34" | (esc) "c = 92" | (plain) "c \<noteq> 34" "c \<noteq> 92"
      by blast
    then show ?thesis
    proof cases
      case quote
      with less.prems cs show ?thesis by (auto intro: exI [of _ "[]"])
    next
      case plain
      with less.prems cs obtain v' where c: "32 \<le> c" and s: "scanstring cs' = Some (v', r)"
        by (auto simp add: cons_char_Some split: if_splits)
      from IH [OF _ s] cs obtain b where "cs' = b @ 34 # r" "\<forall>c\<in>set b. 32 \<le> c"
        by auto
      with c cs show ?thesis
        by (intro exI [of _ "c # b"]) simp
    next
      case esc
      with less.prems cs obtain e es where es: "cs' = e # es"
        by (cases cs') auto
      show ?thesis
      proof (cases "e = 117")
        case False
        with less.prems cs esc es obtain x v' where x: "unescape e = Some x"
          and s: "scanstring es = Some (v', r)"
          by (auto simp add: cons_char_Some split: option.splits)
        from IH [OF _ s] cs es obtain b where "es = b @ 34 # r" "\<forall>c\<in>set b. 32 \<le> c"
          by auto
        with unescape_Some [OF x] cs es esc show ?thesis
          by (intro exI [of _ "92 # e # b"]) simp
      next
        case True
        with less.prems cs esc es obtain u where u: "hex4 es = Some u"
          by (auto split: option.splits)
        from hex4_Some [OF u] obtain h1 h2 h3 h4 r4 where
          r4: "es = h1 # h2 # h3 # h4 # r4" and
          h: "hexdigit h1" "hexdigit h2" "hexdigit h3" "hexdigit h4"
          by blast
        from h have hb: "32 \<le> h1" "32 \<le> h2" "32 \<le> h3" "32 \<le> h4"
          by (auto simp add: hexdigit_def)
        show ?thesis
        proof (cases "55296 \<le> u \<and> u \<le> 56319 \<and> prefix [92, 117] r4")
          case False
          with less.prems cs esc es True u r4 obtain v' where
            s: "scanstring r4 = Some (v', r)"
            by (auto simp add: cons_char_Some)
          from IH [OF _ s] cs es r4 obtain b where "r4 = b @ 34 # r" "\<forall>c\<in>set b. 32 \<le> c"
            by auto
          with hb cs es esc True r4 show ?thesis
            by (intro exI [of _ "92 # 117 # h1 # h2 # h3 # h4 # b"]) simp
        next
          case pair: True
          then obtain r6 where r6: "r4 = 92 # 117 # r6"
            by (auto simp add: prefix_def)
          with less.prems cs esc es True u r4 pair obtain u2 where u2: "hex4 r6 = Some u2"
            by (auto split: option.splits)
          from hex4_Some [OF u2] obtain g1 g2 g3 g4 r10 where
            r10: "r6 = g1 # g2 # g3 # g4 # r10" and
            g: "hexdigit g1" "hexdigit g2" "hexdigit g3" "hexdigit g4"
            by blast
          from g have gb: "32 \<le> g1" "32 \<le> g2" "32 \<le> g3" "32 \<le> g4"
            by (auto simp add: hexdigit_def)
          show ?thesis
          proof (cases "56320 \<le> u2 \<and> u2 \<le> 57343")
            case True
            with less.prems cs esc es \<open>e = 117\<close> u r4 pair r6 u2 r10 obtain v' where
              s: "scanstring r10 = Some (v', r)"
              by (auto simp add: cons_char_Some)
            from IH [OF _ s] cs es r4 r6 r10 obtain b where
              "r10 = b @ 34 # r" "\<forall>c\<in>set b. 32 \<le> c"
              by auto
            with hb gb cs es esc \<open>e = 117\<close> r4 r6 r10 show ?thesis
              by (intro exI [of _ "92 # 117 # h1 # h2 # h3 # h4 # 92 # 117 # g1 # g2 # g3 # g4 # b"])
                simp
          next
            case False
            with less.prems cs esc es \<open>e = 117\<close> u r4 pair r6 u2 r10 obtain v' where
              s: "scanstring r4 = Some (v', r)"
              by (auto simp add: cons_char_Some)
            from IH [OF _ s] cs es r4 obtain b where "r4 = b @ 34 # r" "\<forall>c\<in>set b. 32 \<le> c"
              by auto
            with hb cs es esc \<open>e = 117\<close> r4 show ?thesis
              by (intro exI [of _ "92 # 117 # h1 # h2 # h3 # h4 # b"]) simp
          qed
        qed
      qed
    qed
  qed
qed

subsection \<open>String literals before white space\<close>

lemma ws_Nil [simp]: "ws []"
  by (simp add: ws_def)

lemma ws_Cons [simp]: "ws (c # w) \<longleftrightarrow> isspace c \<and> ws w"
  by (simp add: ws_def)

lemma ws_append [simp]: "ws (a @ b) \<longleftrightarrow> ws a \<and> ws b"
  by (auto simp add: ws_def)

lemma isspace_unescape: "isspace c \<Longrightarrow> unescape c = None"
  by (auto simp add: isspace_def unescape_def)

lemma isspace_hexval: "isspace c \<Longrightarrow> hexval c = None"
  by (auto simp add: isspace_def hexval_def)

lemma short_cases:
  obtains "es = []" | a where "es = [a]" | a b where "es = [a, b]" | a b c where "es = [a, b, c]"
  | a b c d r where "es = a # b # c # d # r"
  by (metis list.exhaust)

lemma hex4_append:
  assumes "hex4 (es @ w) = Some u" and "ws w"
  shows "hex4 es = Some u \<and> (\<exists>a b c d r. es = a # b # c # d # r)"
  using assms
  by (cases es rule: short_cases)
    (auto simp add: hex4_def isspace_hexval split: list.splits option.splits)

lemma prefix_esc_append:
  assumes "ws w"
  shows "prefix [92, 117] (x @ w) \<longleftrightarrow> prefix [92, 117] x"
proof (cases x rule: short_cases)
  case 1
  with assms show ?thesis by (cases w) (auto simp add: isspace_def)
next
  case (2 a)
  with assms show ?thesis by (cases w) (auto simp add: isspace_def)
qed auto

lemma scanstring_ws: "ws w \<Longrightarrow> scanstring w = None"
proof (induction w)
  case Nil
  then show ?case by simp
next
  case (Cons c w)
  then have "c \<noteq> 34" "c \<noteq> 92" by (auto simp add: isspace_def)
  with Cons show ?case by (simp add: cons_char_def)
qed

lemma scanstring_stable:
  "scanstring (y @ w) = Some (v, r) \<Longrightarrow> ws w \<Longrightarrow>
   \<exists>r0. r = r0 @ w \<and> scanstring y = Some (v, r0)"
proof (induction "length y" arbitrary: y v r rule: less_induct)
  case less
  note w = \<open>ws w\<close>
  have IH: "\<And>ds v r. length ds < length y \<Longrightarrow> scanstring (ds @ w) = Some (v, r) \<Longrightarrow>
      \<exists>r0. r = r0 @ w \<and> scanstring ds = Some (v, r0)"
    using less.hyps w by blast
  show ?case
  proof (cases y)
    case Nil
    with less.prems scanstring_ws [OF w] show ?thesis by simp
  next
    case (Cons c cs)
    note y = Cons
    consider (quote) "c = 34" | (esc) "c = 92" | (plain) "c \<noteq> 34" "c \<noteq> 92"
      by blast
    then show ?thesis
    proof cases
      case quote
      with less.prems y show ?thesis by auto
    next
      case plain
      with less.prems y obtain v' where c: "\<not> c < 32" and v: "v = c # v'"
        and s: "scanstring (cs @ w) = Some (v', r)"
        by (auto simp add: cons_char_Some split: if_splits)
      from IH [OF _ s] y obtain r0 where "r = r0 @ w" "scanstring cs = Some (v', r0)"
        by auto
      with c v y plain show ?thesis
        by (simp add: cons_char_def)
    next
      case esc
      show ?thesis
      proof (cases cs)
        case Nil
        with less.prems y esc w show ?thesis
          by (cases w) (auto simp add: isspace_unescape isspace_def split: option.splits)
      next
        case (Cons e es)
        note cs = Cons
        show ?thesis
        proof (cases "e = 117")
          case False
          with less.prems y esc cs obtain x v' where x: "unescape e = Some x"
            and v: "v = x # v'" and s: "scanstring (es @ w) = Some (v', r)"
            by (auto simp add: cons_char_Some split: option.splits)
          from IH [OF _ s] y cs obtain r0 where "r = r0 @ w" "scanstring es = Some (v', r0)"
            by auto
          with False x v y esc cs show ?thesis
            by (simp add: cons_char_def)
        next
          case True
          with less.prems y esc cs obtain u where u': "hex4 (es @ w) = Some u"
            by (auto split: option.splits)
          from hex4_append [OF u' w] obtain h1 h2 h3 h4 r4 where
            u: "hex4 es = Some u" and r4: "es = h1 # h2 # h3 # h4 # r4"
            by blast
          show ?thesis
          proof (cases "55296 \<le> u \<and> u \<le> 56319 \<and> prefix [92, 117] r4")
            case False
            then have nf: "\<not> (55296 \<le> u \<and> u \<le> 56319 \<and> prefix [92, 117] (r4 @ w))"
              using prefix_esc_append [OF w] by blast
            with less.prems y esc cs True u' r4 obtain v' where v: "v = u # v'"
              and s: "scanstring (r4 @ w) = Some (v', r)"
              by (auto simp add: cons_char_Some)
            from IH [OF _ s] y cs r4 obtain r0 where "r = r0 @ w" "scanstring r4 = Some (v', r0)"
              by auto
            with False v y esc cs True u r4 show ?thesis
              by (auto simp add: cons_char_def)
          next
            case pair: True
            then have pf: "55296 \<le> u \<and> u \<le> 56319 \<and> prefix [92, 117] (r4 @ w)"
              using prefix_esc_append [OF w] by blast
            from pair obtain r6 where r6: "r4 = 92 # 117 # r6"
              by (auto simp add: prefix_def)
            with less.prems y esc cs True u' r4 pf obtain u2 where
              u2': "hex4 (r6 @ w) = Some u2"
              by (auto split: option.splits)
            from hex4_append [OF u2' w] obtain g1 g2 g3 g4 r10 where
              u2: "hex4 r6 = Some u2" and r10: "r6 = g1 # g2 # g3 # g4 # r10"
              by blast
            show ?thesis
            proof (cases "56320 \<le> u2 \<and> u2 \<le> 57343")
              case low: True
              with less.prems y esc cs \<open>e = 117\<close> u' r4 pf r6 u2' r10 obtain v' where
                v: "v = (65536 + (u - 55296) * 1024 + (u2 - 56320)) # v'"
                and s: "scanstring (r10 @ w) = Some (v', r)"
                by (auto simp add: cons_char_Some)
              from IH [OF _ s] y cs r4 r6 r10 obtain r0 where
                "r = r0 @ w" "scanstring r10 = Some (v', r0)"
                by auto
              with low v y esc cs \<open>e = 117\<close> u r4 pair r6 u2 r10 show ?thesis
                by (auto simp add: cons_char_def)
            next
              case False
              with less.prems y esc cs \<open>e = 117\<close> u' r4 pf r6 u2' r10 obtain v' where
                v: "v = u # v'" and s: "scanstring (r4 @ w) = Some (v', r)"
                by (auto simp add: cons_char_Some)
              from IH [OF _ s] y cs r4 obtain r0 where
                "r = r0 @ w" "scanstring r4 = Some (v', r0)"
                by auto
              with False v y esc cs \<open>e = 117\<close> u r4 pair r6 u2 r10 show ?thesis
                by (auto simp add: cons_char_def)
            qed
          qed
        qed
      qed
    qed
  qed
qed

subsection \<open>Number literals\<close>

lemma digit_numchar: "digit c \<Longrightarrow> numchar c"
  by (simp add: numchar_def)

lemma takeWhile_digit_numchar: "c \<in> set (takeWhile digit ds) \<Longrightarrow> numchar c"
  by (auto dest: set_takeWhileD intro: digit_numchar)

lemma isspace_not_digit: "isspace c \<Longrightarrow> \<not> digit c"
  by (auto simp add: isspace_def digit_def)

lemma takeWhile_digit_ws: "ws w \<Longrightarrow> takeWhile digit (ds @ w) = takeWhile digit ds"
proof (induction ds)
  case Nil
  then show ?case by (cases w) (auto simp add: isspace_not_digit)
next
  case (Cons d ds)
  then show ?case by simp
qed

lemma dropWhile_digit_ws: "ws w \<Longrightarrow> dropWhile digit (ds @ w) = dropWhile digit ds @ w"
proof (induction ds)
  case Nil
  then show ?case by (cases w) (auto simp add: isspace_not_digit)
next
  case (Cons d ds)
  then show ?case by simp
qed

lemma int_part_text:
  assumes "int_part s = Some (i, r)"
  shows "s = i @ r \<and> i \<noteq> [] \<and> (\<forall>c\<in>set i. numchar c)"
proof (cases s)
  case Nil
  with assms show ?thesis by (simp add: int_part_def)
next
  case (Cons d ds)
  show ?thesis
  proof (cases "d = 48")
    case True
    with assms Cons show ?thesis by (auto simp add: int_part_def numchar_def digit_def)
  next
    case False
    with assms Cons have "digit d" "i = d # takeWhile digit ds" "r = dropWhile digit ds"
      by (auto simp add: int_part_def split: if_splits)
    with Cons show ?thesis
      by (auto intro: digit_numchar takeWhile_digit_numchar)
  qed
qed

lemma frac_part_text:
  assumes "frac_part s = (f, r)"
  shows "s = f @ r \<and> (\<forall>c\<in>set f. numchar c)"
proof (cases "\<exists>p d ds. s = p # d # ds \<and> p = 46 \<and> digit d")
  case True
  then obtain d ds where s: "s = 46 # d # ds" and d: "digit d" by blast
  with assms have "f = 46 # d # takeWhile digit ds" "r = dropWhile digit ds"
    by (simp_all add: frac_part_def)
  moreover have "numchar 46" by (simp add: numchar_def)
  ultimately show ?thesis
    using s d by (auto intro: digit_numchar takeWhile_digit_numchar)
next
  case False
  with assms have "f = []" "r = s"
    by (auto simp add: frac_part_def split: list.splits if_splits)
  then show ?thesis by simp
qed

lemma exp_digits_text:
  assumes "exp_digits s pre ds = (e, r)" and "s = pre @ ds" and "\<forall>c\<in>set pre. numchar c"
  shows "s = e @ r \<and> (\<forall>c\<in>set e. numchar c)"
proof (cases ds)
  case Nil
  with assms show ?thesis by (simp add: exp_digits_def)
next
  case (Cons d ds')
  show ?thesis
  proof (cases "digit d")
    case True
    with assms(1) Cons have "e = pre @ d # takeWhile digit ds'" "r = dropWhile digit ds'"
      by (simp_all add: exp_digits_def)
    with assms(2,3) Cons True show ?thesis
      by (auto intro: digit_numchar takeWhile_digit_numchar)
  next
    case False
    with assms(1) Cons show ?thesis by (simp add: exp_digits_def)
  qed
qed

lemma exp_part_eq:
  "exp_part s =
     (case s of
        x # g # gs \<Rightarrow>
          if x = 101 \<or> x = 69
          then (if g = 43 \<or> g = 45 then exp_digits s [x, g] gs else exp_digits s [x] (g # gs))
          else ([], s)
      | _ \<Rightarrow> ([], s))"
  by (cases s rule: short_cases) (simp_all add: exp_part_def)

lemma exp_part_text:
  assumes "exp_part s = (e, r)"
  shows "s = e @ r \<and> (\<forall>c\<in>set e. numchar c)"
proof (cases "\<exists>x g gs. s = x # g # gs \<and> (x = 101 \<or> x = 69)")
  case False
  with assms have "e = []" "r = s"
    by (auto simp add: exp_part_eq split: list.splits if_splits)
  then show ?thesis by simp
next
  case True
  then obtain x g gs where s: "s = x # g # gs" and x: "x = 101 \<or> x = 69" by blast
  then have nx: "numchar x" by (auto simp add: numchar_def)
  show ?thesis
  proof (cases "g = 43 \<or> g = 45")
    case True
    then have "numchar g" by (auto simp add: numchar_def)
    moreover from assms s x True have "exp_digits s [x, g] gs = (e, r)"
      by (simp add: exp_part_eq)
    ultimately show ?thesis
      using exp_digits_text [of s "[x, g]" gs e r] s nx by simp
  next
    case False
    with assms s x have "exp_digits s [x] (g # gs) = (e, r)"
      by (simp add: exp_part_eq)
    then show ?thesis
      using exp_digits_text [of s "[x]" "g # gs" e r] s nx by simp
  qed
qed

subsection \<open>Number literals before white space\<close>

lemma isspace_neq:
  "isspace c \<Longrightarrow> c \<noteq> 46 \<and> c \<noteq> 101 \<and> c \<noteq> 69 \<and> c \<noteq> 43 \<and> c \<noteq> 45 \<and> \<not> digit c"
  by (auto simp add: isspace_def digit_def)

lemma int_part_stable:
  assumes "int_part (y @ w) = Some (i, r)" and "ws w"
  shows "\<exists>r0. r = r0 @ w \<and> int_part y = Some (i, r0)"
proof (cases y)
  case Nil
  show ?thesis
  proof (cases w)
    case Nil
    with assms \<open>y = []\<close> show ?thesis by (simp add: int_part_def)
  next
    case (Cons x xs)
    with assms(2) have "\<not> digit x" by (simp add: isspace_neq)
    then have "x \<noteq> 48" by (auto simp add: digit_def)
    with assms(1) \<open>y = []\<close> Cons \<open>\<not> digit x\<close> show ?thesis by (simp add: int_part_def)
  qed
next
  case (Cons d ds)
  with assms show ?thesis
    by (auto simp add: int_part_def takeWhile_digit_ws dropWhile_digit_ws split: if_splits)
qed

lemma frac_part_ws: "ws w \<Longrightarrow> frac_part w = ([], w)"
  by (cases w rule: short_cases) (simp_all add: frac_part_def isspace_neq)

lemma frac_part_stable:
  assumes "ws w"
  shows "frac_part (y @ w) = (fst (frac_part y), snd (frac_part y) @ w)"
proof (cases y rule: short_cases)
  case 1
  moreover have "frac_part [] = ([], [])" by (simp add: frac_part_def)
  ultimately show ?thesis
    using frac_part_ws [OF assms] by simp
next
  case (2 a)
  show ?thesis
  proof (cases w)
    case Nil
    then show ?thesis by simp
  next
    case (Cons x xs)
    with assms have "\<not> digit x" by (simp add: isspace_neq)
    with 2 Cons show ?thesis by (simp add: frac_part_def)
  qed
next
  case (3 a b)
  with assms show ?thesis
    using takeWhile_digit_ws [of w "[]"] dropWhile_digit_ws [of w "[]"]
    by (simp add: frac_part_def)
next
  case (4 a b c)
  with assms show ?thesis
    using takeWhile_digit_ws [of w "[c]"] dropWhile_digit_ws [of w "[c]"]
    by (simp add: frac_part_def)
next
  case (5 a b c d r)
  with assms show ?thesis
    using takeWhile_digit_ws [of w "c # d # r"] dropWhile_digit_ws [of w "c # d # r"]
    by (simp add: frac_part_def)
qed

lemma exp_digits_stable:
  assumes "ws w"
  shows "exp_digits (s @ w) pre (ds @ w) =
    (fst (exp_digits s pre ds), snd (exp_digits s pre ds) @ w)"
proof (cases ds)
  case Nil
  show ?thesis
  proof (cases w)
    case Nil
    then show ?thesis by simp
  next
    case (Cons x xs)
    with assms have "\<not> digit x" by (simp add: isspace_neq)
    with Cons \<open>ds = []\<close> show ?thesis by (simp add: exp_digits_def)
  qed
next
  case (Cons d ds')
  with assms show ?thesis
    using takeWhile_digit_ws [of w ds'] dropWhile_digit_ws [of w ds']
    by (simp add: exp_digits_def)
qed

lemma exp_part_ws: "ws w \<Longrightarrow> exp_part w = ([], w)"
  by (cases w rule: short_cases) (simp_all add: exp_part_eq isspace_neq)

lemma exp_part_stable:
  assumes "ws w"
  shows "exp_part (y @ w) = (fst (exp_part y), snd (exp_part y) @ w)"
proof (cases y rule: short_cases)
  case 1
  moreover have "exp_part [] = ([], [])" by (simp add: exp_part_def)
  ultimately show ?thesis
    using exp_part_ws [OF assms] by simp
next
  case (2 a)
  show ?thesis
  proof (cases w)
    case Nil
    then show ?thesis by simp
  next
    case (Cons x xs)
    with assms have "x \<noteq> 43" "x \<noteq> 45" "\<not> digit x"
      by (simp_all add: isspace_neq)
    with 2 Cons show ?thesis
      by (simp add: exp_part_eq exp_digits_def)
  qed
next
  case (3 a b)
  then show ?thesis
    using exp_digits_stable [OF assms, of y "[a, b]" "[]"]
      exp_digits_stable [OF assms, of y "[a]" "[b]"]
    by (auto simp add: exp_part_eq)
next
  case (4 a b c)
  then show ?thesis
    using exp_digits_stable [OF assms, of y "[a, b]" "[c]"]
      exp_digits_stable [OF assms, of y "[a]" "[b, c]"]
    by (auto simp add: exp_part_eq)
next
  case (5 a b c d r)
  then show ?thesis
    using exp_digits_stable [OF assms, of y "[a, b]" "c # d # r"]
      exp_digits_stable [OF assms, of y "[a]" "b # c # d # r"]
    by (auto simp add: exp_part_eq)
qed

subsection \<open>Numbers and words\<close>

lemma split_sign_text: "split_sign s = (g, s1) \<Longrightarrow> s = g @ s1 \<and> (\<forall>c\<in>set g. numchar c)"
  by (auto simp add: split_sign_def numchar_def split: list.splits if_splits)

lemma split_sign_ws: "ws w \<Longrightarrow> split_sign w = ([], w)"
  by (cases w) (simp_all add: split_sign_def isspace_neq)

lemma split_sign_stable:
  "y \<noteq> [] \<Longrightarrow> split_sign (y @ w) = (fst (split_sign y), snd (split_sign y) @ w)"
  by (cases y) (simp_all add: split_sign_def)

lemma match_number_text:
  assumes "match_number s = Some (t, r)"
  shows "\<exists>w. s = w @ r \<and> w \<noteq> [] \<and> (\<forall>c\<in>set w. numchar c)"
proof -
  obtain g s1 where g: "split_sign s = (g, s1)" by (cases "split_sign s") auto
  with assms obtain i r1 where i: "int_part s1 = Some (i, r1)"
    by (auto simp add: match_number_def split: option.splits)
  obtain f r2 where f: "frac_part r1 = (f, r2)" by (cases "frac_part r1") auto
  obtain e r3 where e: "exp_part r2 = (e, r3)" by (cases "exp_part r2") auto
  from assms g i f e have r: "r = r3"
    by (auto simp add: match_number_def split: if_splits)
  from split_sign_text [OF g] int_part_text [OF i] frac_part_text [OF f] exp_part_text [OF e] r
  show ?thesis
    by (intro exI [of _ "g @ i @ f @ e"]) auto
qed

lemma match_number_ws: "ws w \<Longrightarrow> match_number w = None"
proof (cases w)
  case Nil
  then show ?thesis by (simp add: match_number_def split_sign_def int_part_def)
next
  case (Cons x xs)
  assume "ws w"
  with Cons have "\<not> digit x" "x \<noteq> 45" by (simp_all add: isspace_neq)
  then have "x \<noteq> 48" by (auto simp add: digit_def)
  with Cons \<open>\<not> digit x\<close> \<open>x \<noteq> 45\<close> show ?thesis
    by (simp add: match_number_def split_sign_def int_part_def)
qed

lemma match_number_stable:
  assumes "match_number (y @ w) = Some (t, r)" and "ws w"
  shows "\<exists>r0. r = r0 @ w \<and> match_number y = Some (t, r0)"
proof (cases "y = []")
  case True
  with assms match_number_ws [of w] show ?thesis by simp
next
  case False
  obtain g s1 where g: "split_sign y = (g, s1)" by (cases "split_sign y") auto
  with False have g': "split_sign (y @ w) = (g, s1 @ w)"
    by (simp add: split_sign_stable)
  with assms(1) obtain i r1 where i': "int_part (s1 @ w) = Some (i, r1)"
    by (auto simp add: match_number_def split: option.splits)
  from int_part_stable [OF i' assms(2)] obtain q1 where
    r1: "r1 = q1 @ w" and i: "int_part s1 = Some (i, q1)"
    by blast
  obtain f q2 where f: "frac_part q1 = (f, q2)" by (cases "frac_part q1") auto
  then have f': "frac_part (q1 @ w) = (f, q2 @ w)"
    by (simp add: frac_part_stable [OF assms(2)])
  obtain e q3 where e: "exp_part q2 = (e, q3)" by (cases "exp_part q2") auto
  then have e': "exp_part (q2 @ w) = (e, q3 @ w)"
    by (simp add: exp_part_stable [OF assms(2)])
  from assms(1) g' i' r1 f' e' have "r = q3 @ w"
    and "t = (if f = [] \<and> e = [] then TInt (g @ i) else TFloat (g @ i @ f @ e))"
    by (auto simp add: match_number_def split: if_splits)
  moreover from g i f e
  have "match_number y = Some (if f = [] \<and> e = [] then TInt (g @ i) else TFloat (g @ i @ f @ e), q3)"
    by (simp add: match_number_def)
  ultimately show ?thesis by simp
qed

lemma literal_text: "literal word v s = Some (t, r) \<Longrightarrow> s = str word @ r"
  by (auto simp add: literal_def str_def prefix_def split: if_splits)

lemma prefix_ws:
  "prefix p (y @ w) \<Longrightarrow> \<forall>c\<in>set p. \<not> isspace c \<Longrightarrow> ws w \<Longrightarrow> prefix p y"
proof (induction p arbitrary: y)
  case Nil
  then show ?case by simp
next
  case (Cons a p)
  show ?case
  proof (cases y)
    case Nil
    with Cons.prems show ?thesis by (cases w) auto
  next
    case (Cons b y')
    with Cons.prems Cons.IH [of y'] show ?thesis by auto
  qed
qed

lemma literal_stable:
  assumes "literal word v (y @ w) = Some (t, r)" and "ws w" and "\<forall>c\<in>set (str word). \<not> isspace c"
  shows "\<exists>r0. r = r0 @ w \<and> literal word v y = Some (t, r0)"
proof -
  from assms(1) have p': "prefix (str word) (y @ w)" and t: "t = TConst v"
    and r: "r = drop (length word) (y @ w)"
    by (auto simp add: literal_def split: if_splits)
  from prefix_ws [OF p' assms(3,2)] have p: "prefix (str word) y" .
  then have "length word \<le> length y"
    by (auto simp add: prefix_def str_def)
  with r have "r = drop (length word) y @ w" by simp
  with p t show ?thesis by (simp add: literal_def)
qed

subsection \<open>Tokens\<close>

lemma literal_hd:
  "literal word v (c # cs) = Some x \<Longrightarrow> word \<noteq> [] \<Longrightarrow> c = of_char (hd word)"
  by (cases word) (auto simp add: literal_def str_def split: if_splits)

lemma literal_None: "word \<noteq> [] \<Longrightarrow> c \<noteq> of_char (hd word) \<Longrightarrow> literal word v (c # cs) = None"
  using literal_hd [of word v c cs] by (cases "literal word v (c # cs)") auto

lemma match_number_None: "c \<noteq> 45 \<Longrightarrow> \<not> digit c \<Longrightarrow> match_number (c # cs) = None"
proof -
  assume a: "c \<noteq> 45" "\<not> digit c"
  then have "c \<noteq> 48" by (auto simp add: digit_def)
  with a show ?thesis
    by (simp add: match_number_def split_sign_def int_part_def)
qed

lemma next_token_other:
  assumes "\<not> special c"
  shows "next_token (c # cs) =
     (if c = 110 then literal ''null'' JNull (c # cs)
      else if c = 116 then literal ''true'' (JBool True) (c # cs)
      else if c = 102 then literal ''false'' (JBool False) (c # cs)
      else if c = 45 \<or> digit c then
        (case match_number (c # cs) of
           Some x \<Rightarrow> Some x
         | None \<Rightarrow> literal ''-Infinity'' (JFloat NegInf) (c # cs))
      else if c = 78 then literal ''NaN'' (JFloat NaN) (c # cs)
      else if c = 73 then literal ''Infinity'' (JFloat Inf) (c # cs)
      else None)"
proof -
  have d: "\<not> digit 110" "\<not> digit 116" "\<not> digit 102" "\<not> digit 78" "\<not> digit 73"
    by (simp_all add: digit_def)
  have n: "next_token (c # cs) =
      or_token (literal ''null'' JNull (c # cs))
     (or_token (literal ''true'' (JBool True) (c # cs))
     (or_token (literal ''false'' (JBool False) (c # cs))
     (or_token (match_number (c # cs))
     (or_token (literal ''NaN'' (JFloat NaN) (c # cs))
     (or_token (literal ''Infinity'' (JFloat Inf) (c # cs))
               (literal ''-Infinity'' (JFloat NegInf) (c # cs)))))))"
    using assms by (simp add: next_token_def special_def)
  have l: "literal ''null'' v (x # cs) = None" if "x \<noteq> 110" for v x
    using that by (intro literal_None) simp_all
  have t: "literal ''true'' v (x # cs) = None" if "x \<noteq> 116" for v x
    using that by (intro literal_None) simp_all
  have f: "literal ''false'' v (x # cs) = None" if "x \<noteq> 102" for v x
    using that by (intro literal_None) simp_all
  have a: "literal ''NaN'' v (x # cs) = None" if "x \<noteq> 78" for v x
    using that by (intro literal_None) simp_all
  have i: "literal ''Infinity'' v (x # cs) = None" if "x \<noteq> 73" for v x
    using that by (intro literal_None) simp_all
  have m: "literal ''-Infinity'' v (x # cs) = None" if "x \<noteq> 45" for v x
    using that by (intro literal_None) simp_all
  have k: "match_number (x # cs) = None" if "x \<noteq> 45" "\<not> digit x" for x
    using that by (rule match_number_None)
  have o: "or_token None q = q" "or_token p None = p" for p q
    by (simp_all add: or_token_def split: option.splits)
  consider "c = 110" | "c = 116" | "c = 102" | "c = 45" | "digit c" "c \<noteq> 45" | "c = 78" | "c = 73"
    | "c \<noteq> 110" "c \<noteq> 116" "c \<noteq> 102" "c \<noteq> 45" "\<not> digit c" "c \<noteq> 78" "c \<noteq> 73"
    by blast
  then show ?thesis
  proof cases
    case 1
    then show ?thesis unfolding n by (simp add: o t f k d a i m)
  next
    case 2
    then show ?thesis unfolding n by (simp add: o l f k d a i m)
  next
    case 3
    then show ?thesis unfolding n by (simp add: o l t k d a i m)
  next
    case 4
    then show ?thesis unfolding n
      by (simp add: o l t f a i or_token_def split: option.splits)
  next
    case 5
    then have "c \<noteq> 110" "c \<noteq> 116" "c \<noteq> 102" "c \<noteq> 78" "c \<noteq> 73"
      using d by auto
    with 5 show ?thesis unfolding n
      by (simp add: o l t f a i m or_token_def split: option.splits)
  next
    case 6
    then show ?thesis unfolding n by (simp add: o l t f k d i m)
  next
    case 7
    then show ?thesis unfolding n by (simp add: o l t f k d a m)
  next
    case 8
    then show ?thesis unfolding n by (simp add: o l t f k a i m)
  qed
qed

lemma numchar_facts: "numchar c \<Longrightarrow> c \<noteq> 96 \<and> c \<noteq> 106 \<and> c \<noteq> 74"
  by (auto simp add: numchar_def digit_def)

lemma words_plain:
  "word \<in> words \<Longrightarrow>
   str word \<noteq> [] \<and> plain (str word) \<and> hd (str word) \<noteq> 106 \<and> hd (str word) \<noteq> 74 \<and>
   (\<forall>c\<in>set (str word). \<not> isspace c)"
  by (auto simp add: words_def str_def plain_def isspace_def)

lemma literal_plain:
  assumes "literal word v s = Some (t, r)" and "word \<in> words"
  shows "\<exists>w. s = w @ r \<and> w \<noteq> [] \<and> plain w \<and> hd w \<noteq> 106 \<and> hd w \<noteq> 74"
  using literal_text [OF assms(1)] words_plain [OF assms(2)] by blast

lemma next_token_quote:
  "next_token (34 # cs) = (case scanstring cs of None \<Rightarrow> None | Some (v, r) \<Rightarrow> Some (TStr v, r))"
  by (simp add: next_token_def)

lemma next_token_punct:
  "special c \<Longrightarrow> c \<noteq> 34 \<Longrightarrow> \<exists>t. next_token (c # cs) = Some (t, cs)"
  by (auto simp add: next_token_def special_def)

lemma next_token_text_special:
  assumes "next_token (c # cs) = Some (t, r)" and "special c"
  shows "\<exists>w. c # cs = w @ r \<and> w \<noteq> [] \<and> (plain w \<or> quoted w) \<and> hd w \<noteq> 106 \<and> hd w \<noteq> 74"
proof (cases "c = 34")
  case True
  with assms obtain v where "scanstring cs = Some (v, r)"
    by (auto simp add: next_token_quote split: option.splits)
  from scanstring_text [OF this] obtain b where b: "cs = b @ 34 # r" "\<forall>c\<in>set b. 32 \<le> c"
    by blast
  then have "10 \<notin> set b" by auto
  then have "quoted (34 # b @ [34])"
    by (auto simp add: quoted_def)
  with b True show ?thesis
    by (intro exI [of _ "34 # b @ [34]"]) simp
next
  case False
  with assms next_token_punct [of c cs] have r: "r = cs" by auto
  from assms(2) have "plain [c]" "c \<noteq> 106" "c \<noteq> 74"
    by (auto simp add: plain_def special_def)
  with r show ?thesis
    by (intro exI [of _ "[c]"]) simp
qed

lemma next_token_text_other:
  assumes "next_token (c # cs) = Some (t, r)" and "\<not> special c"
  shows "\<exists>w. c # cs = w @ r \<and> w \<noteq> [] \<and> plain w \<and> hd w \<noteq> 106 \<and> hd w \<noteq> 74"
proof -
  note nt = assms(1) [unfolded next_token_other [OF assms(2)]]
  have num: ?thesis if "match_number (c # cs) = Some (t, r)"
  proof -
    from match_number_text [OF that] obtain w where
      w: "c # cs = w @ r" "w \<noteq> []" "\<forall>c\<in>set w. numchar c"
      by blast
    from w(3) have "plain w"
      using numchar_facts by (auto simp add: plain_def)
    moreover from w(2,3) have "numchar (hd w)" by simp
    then have "hd w \<noteq> 106" "hd w \<noteq> 74" using numchar_facts by blast+
    ultimately show ?thesis using w(1,2) by blast
  qed
  have w: "''null'' \<in> words" "''true'' \<in> words" "''false'' \<in> words" "''-Infinity'' \<in> words"
    "''NaN'' \<in> words" "''Infinity'' \<in> words"
    by (simp_all add: words_def)
  consider (a) "c = 110" | (b) "c = 116" | (c) "c = 102" | (d) "c = 45 \<or> digit c"
    | (e) "c = 78" | (f) "c = 73"
    | (g) "c \<noteq> 110" "c \<noteq> 116" "c \<noteq> 102" "\<not> (c = 45 \<or> digit c)" "c \<noteq> 78" "c \<noteq> 73"
    by blast
  then show ?thesis
  proof cases
    case a
    with nt have "literal ''null'' JNull (c # cs) = Some (t, r)" by simp
    then show ?thesis by (rule literal_plain) (rule w)
  next
    case b
    with nt have "literal ''true'' (JBool True) (c # cs) = Some (t, r)" by simp
    then show ?thesis by (rule literal_plain) (rule w)
  next
    case c
    with nt have "literal ''false'' (JBool False) (c # cs) = Some (t, r)" by simp
    then show ?thesis by (rule literal_plain) (rule w)
  next
    case d
    then have n: "c \<noteq> 110" "c \<noteq> 116" "c \<noteq> 102"
      by (auto simp add: digit_def)
    show ?thesis
    proof (cases "match_number (c # cs)")
      case None
      with nt d n have "literal ''-Infinity'' (JFloat NegInf) (c # cs) = Some (t, r)" by simp
      then show ?thesis by (rule literal_plain) (rule w)
    next
      case (Some x)
      with nt d n have "match_number (c # cs) = Some (t, r)" by simp
      then show ?thesis by (rule num)
    qed
  next
    case e
    then have "\<not> digit c" by (simp add: digit_def)
    with e nt have "literal ''NaN'' (JFloat NaN) (c # cs) = Some (t, r)" by simp
    then show ?thesis by (rule literal_plain) (rule w)
  next
    case f
    then have "\<not> digit c" by (simp add: digit_def)
    with f nt have "literal ''Infinity'' (JFloat Inf) (c # cs) = Some (t, r)" by simp
    then show ?thesis by (rule literal_plain) (rule w)
  next
    case g
    with nt show ?thesis by simp
  qed
qed

lemma next_token_text:
  assumes "next_token s = Some (t, r)"
  shows "\<exists>w. s = w @ r \<and> w \<noteq> [] \<and> (plain w \<or> quoted w) \<and> hd w \<noteq> 106 \<and> hd w \<noteq> 74"
proof (cases s)
  case Nil
  with assms show ?thesis by (simp add: next_token_def)
next
  case (Cons c cs)
  with assms next_token_text_special [of c cs t r] next_token_text_other [of c cs t r]
  show ?thesis by (cases "special c") blast+
qed

lemma next_token_shorter: "next_token (c # cs) = Some (t, r) \<Longrightarrow> length r \<le> length cs"
proof -
  assume "next_token (c # cs) = Some (t, r)"
  from next_token_text [OF this] obtain w where w: "c # cs = w @ r" "w \<noteq> []" by blast
  from w(1) have "Suc (length cs) = length w + length r"
    by (metis length_Cons length_append)
  with w(2) show ?thesis by (cases w) auto
qed

lemma next_token_space: "isspace c \<Longrightarrow> next_token (c # cs) = None"
proof -
  assume c: "isspace c"
  then have "\<not> special c" "c \<noteq> 110" "c \<noteq> 116" "c \<noteq> 102" "c \<noteq> 45" "\<not> digit c"
    "c \<noteq> 78" "c \<noteq> 73"
    by (auto simp add: isspace_def special_def digit_def)
  then show ?thesis by (simp add: next_token_other)
qed

lemma next_token_backtick: "next_token (96 # cs) = None"
proof -
  have "\<not> special 96" "\<not> digit 96" by (simp_all add: special_def digit_def)
  then show ?thesis by (simp add: next_token_other)
qed

lemma literal_words_stable:
  assumes "literal word v (y @ w) = Some (t, r)" and "ws w" and "word \<in> words"
  shows "\<exists>r0. r = r0 @ w \<and> literal word v y = Some (t, r0)"
  using literal_stable [OF assms(1,2)] words_plain [OF assms(3)] by blast

lemma next_token_stable:
  assumes "next_token (y @ w) = Some (t, r)" and "ws w"
  shows "\<exists>r0. r = r0 @ w \<and> next_token y = Some (t, r0)"
proof (cases y)
  case Nil
  show ?thesis
  proof (cases w)
    case Nil
    with assms \<open>y = []\<close> show ?thesis by (simp add: next_token_def)
  next
    case (Cons x xs)
    with assms \<open>y = []\<close> show ?thesis by (simp add: next_token_space)
  qed
next
  case (Cons c cs)
  have wd: "''null'' \<in> words" "''true'' \<in> words" "''false'' \<in> words" "''-Infinity'' \<in> words"
    "''NaN'' \<in> words" "''Infinity'' \<in> words"
    by (simp_all add: words_def)
  show ?thesis
  proof (cases "special c")
    case True
    show ?thesis
    proof (cases "c = 34")
      case True
      with assms Cons obtain v where s: "scanstring (cs @ w) = Some (v, r)" and t: "t = TStr v"
        by (auto simp add: next_token_def split: option.splits)
      from scanstring_stable [OF s assms(2)] obtain r0 where
        "r = r0 @ w" "scanstring cs = Some (v, r0)"
        by blast
      with True Cons t show ?thesis by (simp add: next_token_def)
    next
      case False
      with True assms Cons show ?thesis
        by (auto simp add: next_token_def special_def split: if_splits)
    qed
  next
    case False
    note nt' = assms(1) [unfolded Cons, simplified, unfolded next_token_other [OF False]]
    note nty = next_token_other [OF False, of cs, folded Cons]
    note lw = literal_words_stable [of _ _ "c # cs" w t r, simplified, OF _ assms(2)]
    consider (a) "c = 110" | (b) "c = 116" | (c) "c = 102" | (d) "c = 45 \<or> digit c"
      | (e) "c = 78" | (f) "c = 73"
      | (g) "c \<noteq> 110" "c \<noteq> 116" "c \<noteq> 102" "\<not> (c = 45 \<or> digit c)" "c \<noteq> 78" "c \<noteq> 73"
      by blast
    then show ?thesis
    proof cases
      case a
      with nt' have "literal ''null'' JNull (c # cs @ w) = Some (t, r)" by simp
      from lw [OF this wd(1)] a Cons show ?thesis
        using nty by auto
    next
      case b
      with nt' have "literal ''true'' (JBool True) (c # cs @ w) = Some (t, r)" by simp
      from lw [OF this wd(2)] b Cons show ?thesis
        using nty by auto
    next
      case c
      with nt' have "literal ''false'' (JBool False) (c # cs @ w) = Some (t, r)" by simp
      from lw [OF this wd(3)] c Cons show ?thesis
        using nty by auto
    next
      case e
      then have "\<not> digit c" by (simp add: digit_def)
      with e nt' have "literal ''NaN'' (JFloat NaN) (c # cs @ w) = Some (t, r)" by simp
      from lw [OF this wd(5)] e \<open>\<not> digit c\<close> Cons show ?thesis
        using nty by auto
    next
      case f
      then have "\<not> digit c" by (simp add: digit_def)
      with f nt' have "literal ''Infinity'' (JFloat Inf) (c # cs @ w) = Some (t, r)" by simp
      from lw [OF this wd(6)] f \<open>\<not> digit c\<close> Cons show ?thesis
        using nty by auto
    next
      case g
      with nt' show ?thesis by simp
    next
      case d
      then have n: "c \<noteq> 110" "c \<noteq> 116" "c \<noteq> 102"
        by (auto simp add: digit_def)
      show ?thesis
      proof (cases "match_number (c # cs @ w)")
        case (Some x)
        with nt' d n have m: "match_number ((c # cs) @ w) = Some (t, r)" by simp
        from match_number_stable [OF m assms(2)] obtain r0 where
          "r = r0 @ w" "match_number (c # cs) = Some (t, r0)"
          by blast
        with d n Cons show ?thesis
          using nty by auto
      next
        case None
        with nt' d n have l: "literal ''-Infinity'' (JFloat NegInf) (c # cs @ w) = Some (t, r)"
          by simp
        from lw [OF this wd(4)] obtain r0 where
          r0: "r = r0 @ w" "literal ''-Infinity'' (JFloat NegInf) (c # cs) = Some (t, r0)"
          by auto
        from literal_text [OF r0(2)] have "c = 45" "hd cs = 73" "cs \<noteq> []"
          by (auto simp add: str_def)
        then have "match_number (c # cs) = None"
          by (cases cs) (auto simp add: match_number_def split_sign_def int_part_def digit_def)
        with r0 d n Cons show ?thesis
          using nty by auto
      qed
    qed
  qed
qed

subsection \<open>Token lists\<close>

lemma plain_fence_free: "plain w \<Longrightarrow> fence_free s \<Longrightarrow> fence_free (w @ s)"
  by (induction w) (auto simp add: plain_def intro: fence_free.Plain)

lemma quoted_fence_free: "quoted w \<Longrightarrow> fence_free s \<Longrightarrow> fence_free (w @ s)"
  by (auto simp add: quoted_def intro: fence_free.Quoted)

lemma jws_isspace: "jws c \<Longrightarrow> isspace c"
  by (auto simp add: jws_def isspace_def)

lemma tokenize_fence_free: "tokenize s = Some ts \<Longrightarrow> fence_free s"
proof (induction s arbitrary: ts rule: tokenize.induct)
  case 1
  show ?case by (rule fence_free.Nil)
next
  case (2 c cs)
  show ?case
  proof (cases "jws c")
    case True
    with 2 have "fence_free cs" by simp
    moreover from True have "c \<noteq> 96" by (auto simp add: jws_def)
    ultimately show ?thesis by (rule fence_free.Plain [rotated])
  next
    case False
    with "2.prems" obtain t r ts' where
      n: "next_token (c # cs) = Some (t, r)" and l: "length r \<le> length cs"
      and r: "tokenize r = Some ts'"
      by (auto split: option.splits if_splits)
    from "2.IH"(2) [OF False n refl l r] have f: "fence_free r" .
    from next_token_text [OF n] obtain w where
      w: "c # cs = w @ r" "plain w \<or> quoted w"
      by blast
    with f plain_fence_free [of w r] quoted_fence_free [of w r] show ?thesis
      by auto
  qed
qed

lemma tokenize_ws: "ws w \<Longrightarrow> tokenize w = Some ts \<Longrightarrow> ts = []"
proof (induction w)
  case Nil
  then show ?case by simp
next
  case (Cons c w)
  then show ?case
    by (cases "jws c") (auto simp add: next_token_space)
qed

lemma tokenize_leading: "ws l \<Longrightarrow> tokenize (l @ y) = Some ts \<Longrightarrow> tokenize y = Some ts"
proof (induction l)
  case Nil
  then show ?case by simp
next
  case (Cons c l)
  then show ?case
    by (cases "jws c") (auto simp add: next_token_space)
qed

lemma tokenize_trailing: "tokenize (y @ w) = Some ts \<Longrightarrow> ws w \<Longrightarrow> tokenize y = Some ts"
proof (induction y arbitrary: ts rule: tokenize.induct)
  case 1
  with tokenize_ws [of w ts] show ?case by simp
next
  case (2 c cs)
  show ?case
  proof (cases "jws c")
    case True
    with 2 show ?thesis by simp
  next
    case False
    with "2.prems" obtain t r' ts' where
      n': "next_token ((c # cs) @ w) = Some (t, r')"
      and r': "tokenize r' = Some ts'" and ts: "ts = t # ts'"
      by (auto split: option.splits if_splits)
    from next_token_stable [OF n' "2.prems"(2)] obtain r where
      rr: "r' = r @ w" and n: "next_token (c # cs) = Some (t, r)"
      by blast
    from next_token_shorter [OF n] have l: "length r \<le> length cs" .
    from r' rr have "tokenize (r @ w) = Some ts'" by simp
    from "2.IH"(2) [OF False n refl l this "2.prems"(2)] have "tokenize r = Some ts'" .
    with False n l ts show ?thesis by simp
  qed
qed

lemma tokenize_hd:
  assumes "tokenize (c # cs) = Some ts" and "\<not> isspace c"
  shows "c \<noteq> 106 \<and> c \<noteq> 74 \<and> c \<noteq> 96"
proof -
  from assms(2) have j: "\<not> jws c" using jws_isspace by blast
  with assms(1) obtain t r where n: "next_token (c # cs) = Some (t, r)"
    by (auto split: option.splits)
  from next_token_text [OF n] obtain w where
    w: "c # cs = w @ r" "w \<noteq> []" "plain w \<or> quoted w" "hd w \<noteq> 106" "hd w \<noteq> 74"
    by blast
  from w(1,2) have h: "hd w = c" by (cases w) auto
  from w(2,3) have "hd w \<noteq> 96"
    by (cases w) (auto simp add: plain_def quoted_def)
  with w h show ?thesis by simp
qed

lemma tokenize_backtick: "tokenize (96 # cs) = None"
  by (simp add: next_token_backtick jws_def)

lemma tokenize_nonempty: "tokenize s = Some ts \<Longrightarrow> ts \<noteq> [] \<Longrightarrow> \<exists>c\<in>set s. \<not> isspace c"
proof (rule ccontr)
  assume a: "tokenize s = Some ts" "ts \<noteq> []" and "\<not> (\<exists>c\<in>set s. \<not> isspace c)"
  then have "ws s" by (simp add: ws_def)
  from tokenize_ws [OF this a(1)] a(2) show False by simp
qed

subsection \<open>The fence pattern on a text without fences\<close>

lemma isspace_consts: "\<not> isspace 96" "\<not> isspace 34" "isspace 10"
  by (simp_all add: isspace_def)

lemma fence_open_other: "c \<noteq> 96 \<Longrightarrow> fence_open bol (c # xs) = None"
  by (simp add: fence_open_def backticks_def)

lemma fence_open_False: "fence_open False xs = None"
  by (simp add: fence_open_def)

lemma fence_close_space: "isspace c \<Longrightarrow> fence_close xs = None \<Longrightarrow> fence_close (c # xs) = None"
  by (simp add: fence_close_def Let_def split: if_splits)

lemma fence_close_other: "\<not> isspace c \<Longrightarrow> c \<noteq> 96 \<Longrightarrow> fence_close (c # xs) = None"
  by (simp add: fence_close_def backticks_def)

lemma fence_match_other: "\<not> isspace c \<Longrightarrow> c \<noteq> 96 \<Longrightarrow> fence_match bol (c # xs) = None"
  by (simp add: fence_match_def fence_open_other fence_close_other)

lemma fence_close_free:
  "fence_free s \<Longrightarrow> \<exists>c\<in>set s. \<not> isspace c \<Longrightarrow> fence_close (s @ t) = None"
proof (induction rule: fence_free.induct)
  case Nil
  then show ?case by simp
next
  case (Plain c s)
  show ?case
  proof (cases "isspace c")
    case True
    with Plain.prems have "\<exists>c\<in>set s. \<not> isspace c" by auto
    with Plain.IH have "fence_close (s @ t) = None" by simp
    with True show ?thesis by (simp add: fence_close_space)
  next
    case False
    with Plain.hyps(1) show ?thesis by (simp add: fence_close_other)
  qed
next
  case (Quoted b s)
  show ?case by (simp add: fence_close_other isspace_consts)
qed

lemma fence_close_body: "10 \<notin> set b \<Longrightarrow> fence_close (b @ 34 # u) = None"
proof (induction b)
  case Nil
  show ?case by (simp add: fence_close_other isspace_consts)
next
  case (Cons x b)
  show ?case
  proof (cases "isspace x")
    case True
    with Cons show ?thesis by (simp add: fence_close_space)
  next
    case False
    show ?thesis
    proof (cases "x = 96")
      case False
      with \<open>\<not> isspace x\<close> show ?thesis by (simp add: fence_close_other)
    next
      case True
      have d: "dropWhile isspace ((x # b) @ 34 # u) = x # b @ 34 # u"
        using \<open>\<not> isspace x\<close> by simp
      show ?thesis
      proof (cases "prefix backticks (x # b @ 34 # u)")
        case False
        with d show ?thesis by (simp add: fence_close_def)
      next
        case True
        then obtain b' where b: "b = 96 # 96 # b'"
          by (cases b; cases "tl b") (auto simp add: backticks_def)
        from Cons.prems b have "10 \<notin> set b'" by simp
        then have "case b' @ 34 # u of [] \<Rightarrow> False | c # _ \<Rightarrow> c \<noteq> 10"
          by (cases b') auto
        then have "\<not> (case drop 3 (x # b @ 34 # u) of [] \<Rightarrow> True | c # _ \<Rightarrow> c = 10)"
          using b by (simp split: list.splits)
        with d show ?thesis by (simp add: fence_close_def)
      qed
    qed
  qed
qed

lemma fence_sub_body:
  "10 \<notin> set b \<Longrightarrow> fence_sub 0 False (b @ 34 # u) = b @ fence_sub 0 False (34 # u)"
proof (induction b)
  case Nil
  show ?case by simp
next
  case (Cons x b)
  from Cons.prems have "fence_close ((x # b) @ 34 # u) = None"
    by (rule fence_close_body)
  then have "fence_match False (x # b @ 34 # u) = None"
    by (simp add: fence_match_def fence_open_False)
  moreover from Cons.prems have "x \<noteq> 10" by auto
  ultimately show ?case using Cons by simp
qed

lemma fence_sub_free:
  "fence_free c \<Longrightarrow> c \<noteq> [] \<Longrightarrow> \<not> isspace (last c) \<Longrightarrow>
   fence_sub 0 bol (c @ t) = c @ fence_sub 0 False t"
proof (induction arbitrary: bol rule: fence_free.induct)
  case Nil
  then show ?case by simp
next
  case (Plain c s)
  have f: "fence_free (c # s)"
    using Plain.hyps by (rule fence_free.Plain)
  from Plain.prems have "\<exists>x\<in>set (c # s). \<not> isspace x"
    using last_in_set [of "c # s"] by blast
  with f have "fence_close ((c # s) @ t) = None"
    by (rule fence_close_free)
  with Plain.hyps(1) have m: "fence_match bol (c # s @ t) = None"
    by (simp add: fence_match_def fence_open_other)
  show ?case
  proof (cases "s = []")
    case True
    with Plain.prems have "c \<noteq> 10" using isspace_consts by auto
    with m True show ?thesis by simp
  next
    case False
    with Plain.prems have "\<not> isspace (last s)" by simp
    with False Plain.IH have "fence_sub 0 (c = 10) (s @ t) = s @ fence_sub 0 False t"
      by simp
    with m show ?thesis by simp
  qed
next
  case (Quoted b s)
  have a: "fence_sub 0 bol ((34 # b @ 34 # s) @ t) = 34 # fence_sub 0 False (b @ 34 # s @ t)"
    by (simp add: fence_match_other isspace_consts)
  from Quoted.hyps(1) have b: "fence_sub 0 False (b @ 34 # s @ t) = b @ fence_sub 0 False (34 # s @ t)"
    by (rule fence_sub_body)
  have c: "fence_sub 0 False (34 # s @ t) = 34 # fence_sub 0 False (s @ t)"
    by (simp add: fence_match_other isspace_consts)
  show ?case
  proof (cases "s = []")
    case True
    with a b c show ?thesis by simp
  next
    case False
    with Quoted.prems have "\<not> isspace (last s)" by simp
    with False Quoted.IH have "fence_sub 0 False (s @ t) = s @ fence_sub 0 False t"
      by simp
    with a b c show ?thesis by simp
  qed
qed

lemma fence_sub_skip:
  "length xs = k \<Longrightarrow>
   fence_sub k bol (xs @ ys) = fence_sub 0 (if xs = [] then bol else last xs = 10) ys"
  by (induction xs arbitrary: k bol) auto

lemma fence_sub_all: "length xs \<le> k \<Longrightarrow> fence_sub k bol xs = []"
  by (induction xs arbitrary: k bol) auto

lemma takeWhile_ws: "ws w \<Longrightarrow> \<not> isspace c \<Longrightarrow> takeWhile isspace (w @ c # xs) = w"
  by (induction w) auto

lemma dropWhile_ws: "ws w \<Longrightarrow> \<not> isspace c \<Longrightarrow> dropWhile isspace (w @ c # xs) = c # xs"
  by (induction w) auto

lemma fence_close_end: "ws w \<Longrightarrow> fence_close (w @ backticks) = Some (length w + 3)"
  by (simp add: fence_close_def backticks_def takeWhile_ws dropWhile_ws isspace_consts)

lemma fence_sub_close: "ws w \<Longrightarrow> fence_sub 0 False (w @ backticks) = []"
proof -
  assume w: "ws w"
  obtain c cs where e: "w @ backticks = c # cs"
    by (cases "w @ backticks") (auto simp add: backticks_def)
  then have "length (w @ backticks) = length (c # cs)" by simp
  then have l: "length cs = length w + 2"
    by (simp add: backticks_def)
  from w have "fence_match False (w @ backticks) = Some (length w + 3)"
    by (simp add: fence_match_def fence_open_False fence_close_end)
  with e have "fence_sub 0 False (w @ backticks) = fence_sub (length w + 2) (c = 10) cs"
    by simp
  with l show ?thesis by (simp add: fence_sub_all)
qed

lemma trim_decomp:
  assumes "\<exists>c\<in>set s. \<not> isspace c"
  shows "\<exists>l m r. s = l @ m @ r \<and> ws l \<and> ws r \<and> m \<noteq> [] \<and>
           \<not> isspace (hd m) \<and> \<not> isspace (last m)"
proof -
  let ?l = "takeWhile isspace s"
  let ?t = "dropWhile isspace s"
  let ?r = "rev (takeWhile isspace (rev ?t))"
  let ?m = "rev (dropWhile isspace (rev ?t))"
  from assms have t: "?t \<noteq> []" by auto
  then have h: "\<not> isspace (hd ?t)" by (rule hd_dropWhile)
  have "hd ?t \<in> set (rev ?t)" using hd_in_set [OF t] by simp
  with h have n: "dropWhile isspace (rev ?t) \<noteq> []"
    by (metis dropWhile_eq_Nil_conv)
  have e: "?t = ?m @ ?r"
    using takeWhile_dropWhile_id [of isspace "rev ?t"]
    by (metis rev_append rev_rev_ident)
  have "s = ?l @ ?m @ ?r" using e by (metis takeWhile_dropWhile_id)
  moreover have "ws ?l" by (auto simp add: ws_def dest: set_takeWhileD)
  moreover have "ws ?r" by (auto simp add: ws_def dest: set_takeWhileD)
  moreover from n have "?m \<noteq> []" by simp
  moreover have "\<not> isspace (last ?m)"
    using n hd_dropWhile [OF n] by (simp add: last_rev)
  moreover have "\<not> isspace (hd ?m)"
    using e h \<open>?m \<noteq> []\<close> by (metis hd_append2)
  ultimately show ?thesis by blast
qed

lemma strip_id: "s \<noteq> [] \<Longrightarrow> \<not> isspace (hd s) \<Longrightarrow> \<not> isspace (last s) \<Longrightarrow> strip s = s"
proof -
  assume a: "s \<noteq> []" "\<not> isspace (hd s)" "\<not> isspace (last s)"
  from a(1,2) have "dropWhile isspace s = s" by (cases s) auto
  moreover from a(1,3) have "dropWhile isspace (rev s) = rev s"
    by (cases "rev s") (auto simp add: last_rev [symmetric] hd_rev)
  ultimately show ?thesis by (simp add: strip_def)
qed

lemma tag_len_hd: "xs = [] \<or> (hd xs \<noteq> 106 \<and> hd xs \<noteq> 74) \<Longrightarrow> tag_len xs = 0"
  by (auto simp add: tag_len_def split: list.splits)

lemma tag_len_append: "length tag = 4 \<Longrightarrow> tag_len tag = 4 \<Longrightarrow> tag_len (tag @ xs) = 4"
  by (auto simp add: tag_len_def split: list.splits if_splits)

subsection \<open>Fenced JSON\<close>

lemma json_loads_backtick: "json_loads D (96 # cs) = Inl (failure D (96 # cs))"
  by (simp add: json_loads_def tokenize_backtick del: tokenize.simps)

lemma json_loads_tokens:
  "json_loads D s = Inr v \<longleftrightarrow>
   (\<exists>ts. tokenize s = Some ts \<and> parse_value D (depth D) ts = Some (v, []))"
  by (auto simp add: json_loads_def split: option.splits list.splits)

lemma json_loads_trim:
  assumes "json_loads D s = Inr v"
  shows "\<exists>l m r. s = l @ m @ r \<and> ws l \<and> ws r \<and> m \<noteq> [] \<and> \<not> isspace (hd m) \<and>
           \<not> isspace (last m) \<and> hd m \<noteq> 106 \<and> hd m \<noteq> 74 \<and> fence_free m \<and>
           json_loads D m = Inr v"
proof -
  from assms obtain ts where
    t: "tokenize s = Some ts" and p: "parse_value D (depth D) ts = Some (v, [])"
    by (auto simp add: json_loads_tokens)
  from p have "ts \<noteq> []" by auto
  with t have "\<exists>c\<in>set s. \<not> isspace c" by (rule tokenize_nonempty)
  then obtain l m r where
    s: "s = l @ m @ r" and l: "ws l" and r: "ws r" and m: "m \<noteq> []"
    and h: "\<not> isspace (hd m)" and e: "\<not> isspace (last m)"
    using trim_decomp [of s] by blast
  from t s have "tokenize (l @ m @ r) = Some ts" by simp
  with l have "tokenize (m @ r) = Some ts" by (rule tokenize_leading)
  from this r have tm: "tokenize m = Some ts" by (rule tokenize_trailing)
  from m obtain c cs where c: "m = c # cs" by (cases m) auto
  with tm h have "c \<noteq> 106 \<and> c \<noteq> 74 \<and> c \<noteq> 96"
    using tokenize_hd [of c cs ts] by simp
  with c have j: "hd m \<noteq> 106" "hd m \<noteq> 74" by simp_all
  from tm have f: "fence_free m" by (rule tokenize_fence_free)
  from tm p have "json_loads D m = Inr v" by (auto simp add: json_loads_tokens)
  with s l r m h e j f show ?thesis by blast
qed

lemma fence_open_tag:
  assumes "tag = [] \<or> length tag = 4 \<and> tag_len tag = 4" and "ws w" and "m \<noteq> []"
    and "\<not> isspace (hd m)" and "hd m \<noteq> 106" and "hd m \<noteq> 74"
  shows "fence_open True (backticks @ tag @ w @ m @ t) = Some (3 + length tag + length w)"
proof -
  obtain c cs where c: "m = c # cs" using assms(3) by (cases m) auto
  with assms have h: "\<not> isspace c" "c \<noteq> 106" "c \<noteq> 74" by simp_all
  have k: "tag_len (tag @ w @ m @ t) = length tag"
  proof (cases "tag = []")
    case True
    have "tag_len (w @ m @ t) = 0"
    proof (cases w)
      case Nil
      with c h show ?thesis by (simp add: tag_len_hd)
    next
      case (Cons x xs)
      with assms(2) have "isspace x" by simp
      then have "x \<noteq> 106 \<and> x \<noteq> 74" by (auto simp add: isspace_def)
      with Cons show ?thesis by (simp add: tag_len_hd)
    qed
    with True show ?thesis by simp
  next
    case False
    with assms(1) show ?thesis by (simp add: tag_len_append)
  qed
  have "takeWhile isspace (w @ c # cs @ t) = w"
    using assms(2) h(1) by (rule takeWhile_ws)
  moreover have "drop 3 (backticks @ tag @ w @ m @ t) = tag @ w @ m @ t"
    by (simp add: backticks_def)
  moreover have "drop (3 + length tag) (backticks @ tag @ w @ m @ t) = w @ m @ t"
    using drop_append [of "3 + length tag" "backticks @ tag" "w @ m @ t"]
    by (simp add: backticks_def)
  moreover have "prefix backticks (backticks @ tag @ w @ m @ t)"
    by simp
  ultimately show ?thesis using k c
    by (simp only: fence_open_def Let_def simp_thms if_True append_Cons append_Nil)
qed

lemma strip_fences_fenced:
  assumes "tag = [] \<or> length tag = 4 \<and> tag_len tag = 4" and "ws wa" and "ws l"
    and "ws r" and "ws wb" and "m \<noteq> []" and "\<not> isspace (hd m)" and "\<not> isspace (last m)"
    and "hd m \<noteq> 106" and "hd m \<noteq> 74" and "fence_free m"
  shows "strip_fences (backticks @ tag @ wa @ (l @ m @ r) @ wb @ backticks) = m"
proof -
  let ?W = "backticks @ tag @ wa @ (l @ m @ r) @ wb @ backticks"
  let ?t = "(r @ wb) @ backticks"
  let ?p = "[96, 96] @ tag @ wa @ l"
  have w: "?W = 96 # ?p @ m @ ?t" by (simp add: backticks_def)
  have "last ?W = 96" by (simp add: backticks_def)
  then have st: "strip ?W = ?W"
    using strip_id [of ?W] by (simp add: backticks_def isspace_consts)
  from assms have "fence_open True (backticks @ tag @ (wa @ l) @ m @ ?t) =
      Some (3 + length tag + length (wa @ l))"
    by (intro fence_open_tag) simp_all
  then have fm: "fence_match True (96 # ?p @ m @ ?t) = Some (3 + length tag + length (wa @ l))"
    by (simp add: fence_match_def backticks_def)
  have "strip_fences ?W = fence_sub 0 True ?W"
    by (simp only: strip_fences_def st)
  also have "\<dots> = fence_sub 0 True (96 # ?p @ m @ ?t)"
    by (simp only: w)
  also from fm have "\<dots> = fence_sub (length ?p) False (?p @ m @ ?t)"
    by simp
  also have "\<dots> = fence_sub 0 (last ?p = 10) (m @ ?t)"
    using fence_sub_skip [of ?p "length ?p" False "m @ ?t"] by simp
  also from assms have "\<dots> = m @ fence_sub 0 False ?t"
    by (intro fence_sub_free) simp_all
  also from assms have "\<dots> = m"
    by (simp only: fence_sub_close ws_append append_Nil2 simp_thms)
  finally show ?thesis .
qed

text \<open>
  C7: for every text \<open>s\<close> that \<open>json.loads\<close> parses (to an object or to any other
  value), \<open>safe_json_parse\<close> gives, on \<open>s\<close> wrapped in fences of three backticks, the
  value it gives on \<open>s\<close> itself, which is the value \<open>json.loads\<close> gives. The opening
  fence may carry the tag \<open>json\<close>, four code points that the pattern takes for it (the
  letters in either case), and any white space may stand between the fences and \<open>s\<close>.
  This holds for every decoder, whatever its conversions of numbers and its limit on
  nesting.
\<close>

theorem safe_json_parse_fenced:
  assumes "json_loads D s = Inr v" and "tag = [] \<or> length tag = 4 \<and> tag_len tag = 4"
    and "ws wa" and "ws wb"
  shows "safe_json_parse (json_loads D) (backticks @ tag @ wa @ s @ wb @ backticks) =
           safe_json_parse (json_loads D) s \<and>
         safe_json_parse (json_loads D) s = Inr v"
proof -
  from assms(1) obtain l m r where
    s: "s = l @ m @ r" and l: "ws l" and r: "ws r" and m: "m \<noteq> []"
    and h: "\<not> isspace (hd m)" and e: "\<not> isspace (last m)"
    and j: "hd m \<noteq> 106" "hd m \<noteq> 74" and f: "fence_free m" and v: "json_loads D m = Inr v"
    using json_loads_trim [of D s v] by blast
  let ?W = "backticks @ tag @ wa @ s @ wb @ backticks"
  have "?W = 96 # tl ?W" by (simp add: backticks_def)
  then have a: "json_loads D ?W = Inl (failure D ?W)"
    using json_loads_backtick [of D "tl ?W"] by simp
  from assms(2,3) l r assms(4) m h e j f
  have "strip_fences (backticks @ tag @ wa @ (l @ m @ r) @ wb @ backticks) = m"
    by (rule strip_fences_fenced)
  with s have "strip_fences ?W = m" by simp
  with a v have "safe_json_parse (json_loads D) ?W = Inr v"
    by (simp add: safe_json_parse_def)
  moreover from assms(1) have "safe_json_parse (json_loads D) s = Inr v"
    by (simp add: safe_json_parse_def)
  ultimately show ?thesis by simp
qed

lemmas loads_eval = json_loads_def next_token_def literal_def or_token_def match_number_def
  split_sign_def int_part_def frac_part_def exp_part_def exp_digits_def digit_def jws_def
  cons_char_def unescape_def hex4_def hexval_def str_def backticks_def

theorem safe_json_parse_fenced_witness:
  "json_loads \<lparr>parse_int = (\<lambda>l. None), parse_float = (\<lambda>l. None), depth = 1000,
       failure = JSONDecodeError\<rparr>
     (str ''{'' @ [34] @ str ''text'' @ [34] @ str '': ['' @ [34] @ str ''a ``` b'' @ [34] @
      str '', true]}'') =
     Inr (JObj [(str ''text'', JList [JStr (str ''a ``` b''), JBool True])]) \<and>
   length (str ''json'') = 4 \<and> tag_len (str ''json'') = 4 \<and> ws [10] \<and>
   safe_json_parse (json_loads \<lparr>parse_int = (\<lambda>l. None), parse_float = (\<lambda>l. None),
       depth = 1000, failure = JSONDecodeError\<rparr>)
     (backticks @ str ''json'' @ [10] @
      (str ''{'' @ [34] @ str ''text'' @ [34] @ str '': ['' @ [34] @ str ''a ``` b'' @ [34] @
       str '', true]}'') @
      [10] @ backticks) =
     Inr (JObj [(str ''text'', JList [JStr (str ''a ``` b''), JBool True])]) \<and>
   safe_json_parse (json_loads \<lparr>parse_int = (\<lambda>l. None), parse_float = (\<lambda>l. None),
       depth = 1000, failure = JSONDecodeError\<rparr>)
     (backticks @
      (str ''{'' @ [34] @ str ''text'' @ [34] @ str '': ['' @ [34] @ str ''a ``` b'' @ [34] @
       str '', true]}'') @
      backticks) =
     Inr (JObj [(str ''text'', JList [JStr (str ''a ``` b''), JBool True])])"
proof -
  let ?D = "\<lparr>parse_int = (\<lambda>l. None), parse_float = (\<lambda>l. None), depth = 1000,
       failure = JSONDecodeError\<rparr>"
  let ?s = "str ''{'' @ [34] @ str ''text'' @ [34] @ str '': ['' @ [34] @ str ''a ``` b'' @ [34] @
      str '', true]}''"
  let ?v = "JObj [(str ''text'', JList [JStr (str ''a ``` b''), JBool True])]"
  have a: "json_loads ?D ?s = Inr ?v"
    by (simp add: loads_eval)
  have b: "length (str ''json'') = 4 \<and> tag_len (str ''json'') = 4"
    by (simp add: tag_len_def str_def)
  have c: "ws [10]"
    by (simp add: isspace_def)
  from safe_json_parse_fenced [of ?D ?s ?v "str ''json''" "[10]" "[10]"] a b c
  have "safe_json_parse (json_loads ?D) (backticks @ str ''json'' @ [10] @ ?s @ [10] @ backticks) =
     Inr ?v"
    by simp
  moreover from safe_json_parse_fenced [of ?D ?s ?v "[]" "[]" "[]"] a
  have "safe_json_parse (json_loads ?D) (backticks @ ?s @ backticks) = Inr ?v"
    by simp
  ultimately show ?thesis using a b c by blast
qed

end
